theory Spec2Isabelle
  imports Main "HOL-Library.Word" "HOL-Library.Monad_Syntax" "HOL-Library.AList"
begin

section \<open>Values and their types\<close>

text \<open>
  A shallow embedding of \<^verbatim>\<open>src/script/context.c\<close>. Pointers to \<^verbatim>\<open>struct mScriptValue\<close>
  are addresses into a value heap; a pointer that may be \<^verbatim>\<open>NULL\<close> is an \<open>addr option\<close>.
  Every operation that dereferences a pointer returns an \<open>option\<close>: \<open>None\<close> stands for a
  run of the C code that has no defined result (a read through a dangling pointer, a read of
  the union through the wrong member, or a loop that never ends).
\<close>

type_synonym addr = nat
type_synonym u32 = "32 word"

text \<open>
  Modelled from the spec: the type discriminator of \<^verbatim>\<open>mgba/script/types.h\<close> (the header is
  not part of the sources). Only the constants \<^verbatim>\<open>context.c\<close> names are told apart; every
  other base type is \<open>mSCRIPT_TYPE_OTHER\<close>.
\<close>

datatype mScriptTypeBase =
    mSCRIPT_TYPE_SINT
  | mSCRIPT_TYPE_UINT
  | mSCRIPT_TYPE_FLOAT
  | mSCRIPT_TYPE_FUNCTION
  | mSCRIPT_TYPE_WRAPPER
  | mSCRIPT_TYPE_WEAKREF
  | mSCRIPT_TYPE_OTHER nat

text \<open>
  A type descriptor (\<^verbatim>\<open>struct mScriptType\<close>), as a value's \<^verbatim>\<open>type\<close> pointer sees it:
  \<open>descriptor\<close> is the address of the descriptor object, \<open>base\<close> is \<^verbatim>\<open>type->base\<close> and
  \<open>parameters\<close> is \<^verbatim>\<open>type->details.function.parameters\<close>. Where the C code compares two
  \<^verbatim>\<open>type\<close> pointers, the model compares the \<open>descriptor\<close> addresses: two descriptor
  objects of the same content are different types.
\<close>

datatype mScriptType =
  mScriptType (descriptor: addr) (base: mScriptTypeBase) (parameters: "mScriptType list")

text \<open>
  The two descriptor objects \<^verbatim>\<open>context.c\<close> names. Their addresses are two different numbers;
  which two does not matter.
\<close>

definition mSCRIPT_TYPE_MS_WEAKREF :: mScriptType where
  "mSCRIPT_TYPE_MS_WEAKREF = mScriptType 1 mSCRIPT_TYPE_WEAKREF []"

definition mSCRIPT_TYPE_MS_WRAPPER :: mScriptType where
  "mSCRIPT_TYPE_MS_WRAPPER = mScriptType 2 mSCRIPT_TYPE_WRAPPER []"

text \<open>
  The union \<^verbatim>\<open>value\<close> of a \<^verbatim>\<open>struct mScriptValue\<close>, with the two members the file uses.
  Reading a member other than the one stored has no result in the model.
\<close>

datatype mScriptValueUnion = U32 u32 | Opaque "addr option"

fun u32_of :: "mScriptValueUnion \<Rightarrow> u32 option" where
  "u32_of (U32 w) = Some w"
| "u32_of (Opaque p) = None"

fun opaque_of :: "mScriptValueUnion \<Rightarrow> addr option option" where
  "opaque_of (Opaque p) = Some p"
| "opaque_of (U32 w) = None"

record mScriptValue =
  type :: mScriptType
  refs :: int
  payload :: mScriptValueUnion

text \<open>Modelled from the spec: the sentinel reference count "not reference-counted".\<close>

definition mSCRIPT_VALUE_UNREF :: int where
  "mSCRIPT_VALUE_UNREF = - 1"

definition isScalar :: "mScriptValue \<Rightarrow> bool" where
  "isScalar v = (case base (type v) of
       mSCRIPT_TYPE_SINT \<Rightarrow> True
     | mSCRIPT_TYPE_UINT \<Rightarrow> True
     | mSCRIPT_TYPE_FLOAT \<Rightarrow> True
     | _ \<Rightarrow> False)"

section \<open>Engines, the script context and the machine state\<close>

text \<open>
  An engine context. \<open>self\<close> is the address of the struct (engines are told apart by
  pointer). \<open>isScript\<close> and \<open>load\<close> give the results of the engine's callbacks;
  \<open>setGlobal\<close> and \<open>destroy\<close> return nothing the file reads, so they appear only in the
  trace below. The engines are outside collaborators: a callback is taken to work on the
  engine's own state and not to call back into the script context.
\<close>

record mScriptEngineContext =
  self :: addr
  isScript :: "string \<Rightarrow> addr \<Rightarrow> bool"
  load :: "addr \<Rightarrow> addr option \<Rightarrow> bool"

text \<open>
  Calls that leave the file, in the order they are made: the reference-count primitives and
  the callbacks of the engines.
\<close>

datatype event =
    ValueRef addr
  | ValueDeref addr
  | EngineCreate string
  | EngineDestroy addr
  | EngineSetGlobal addr string "addr option"
  | EngineIsScript addr string addr
  | EngineLoad addr addr "addr option"

text \<open>
  \<^verbatim>\<open>struct mScriptContext\<close>. \<open>rootScope\<close> and \<open>weakrefs\<close> are maps; \<open>engines\<close> is an
  association list, enumerated from its head (the order of a hash table's enumeration is left
  open by the spec, and every list is a possible order).
\<close>

record mScriptContext =
  rootScope :: "string \<rightharpoonup> addr"
  engines :: "(string \<times> mScriptEngineContext) list"
  refPool :: "mScriptValue list"
  weakrefs :: "u32 \<rightharpoonup> addr"
  nextWeakref :: u32

text \<open>
  The state the operations run in: the context, the value heap (cell \<open>p\<close> holds the value at
  address \<open>p\<close>, \<open>None\<close> once it is destroyed; allocation appends a cell) and the trace.
\<close>

record state = mScriptContext +
  heap :: "mScriptValue option list"
  trace :: "event list"

definition cell :: "mScriptValue option list \<Rightarrow> addr \<Rightarrow> mScriptValue option" where
  "cell h p = (if p < length h then h ! p else None)"

definition emit :: "event \<Rightarrow> state \<Rightarrow> state" where
  "emit e s = s\<lparr>trace := trace s @ [e]\<rparr>"

section \<open>Reference counting and allocation\<close>

text \<open>
  Modelled from the spec: \<^verbatim>\<open>mScriptValueRef\<close> (section 4.1): increments the count unless the
  value is scalar or in the sentinel state.
\<close>

definition mScriptValueRef :: "addr \<Rightarrow> state \<Rightarrow> state option" where
  "mScriptValueRef p s =
     (case cell (heap s) p of
        None \<Rightarrow> None
      | Some v \<Rightarrow>
          Some (emit (ValueRef p)
            (if isScalar v \<or> refs v = mSCRIPT_VALUE_UNREF then s
             else s\<lparr>heap := (heap s)[p := Some (v\<lparr>refs := refs v + 1\<rparr>)]\<rparr>)))"

text \<open>
  Modelled from the spec: \<^verbatim>\<open>mScriptValueDeref\<close> (section 4.1): decrements and destroys at
  zero; nothing happens for a scalar or sentinel value.
\<close>

definition mScriptValueDeref :: "addr \<Rightarrow> state \<Rightarrow> state option" where
  "mScriptValueDeref p s =
     (case cell (heap s) p of
        None \<Rightarrow> None
      | Some v \<Rightarrow>
          Some (emit (ValueDeref p)
            (if isScalar v \<or> refs v = mSCRIPT_VALUE_UNREF then s
             else if refs v - 1 = 0 then s\<lparr>heap := (heap s)[p := None]\<rparr>
             else s\<lparr>heap := (heap s)[p := Some (v\<lparr>refs := refs v - 1\<rparr>)]\<rparr>)))"

text \<open>
  Modelled from the spec: \<^verbatim>\<open>mScriptValueAlloc\<close>: a new value of the given type, owned once by
  its creator, at an address no value has had.
\<close>

definition mScriptValueAlloc :: "mScriptType \<Rightarrow> state \<Rightarrow> addr \<times> state" where
  "mScriptValueAlloc t s =
     (length (heap s),
      s\<lparr>heap := heap s @ [Some \<lparr>type = t, refs = 1, payload = Opaque None\<rparr>]\<rparr>)"

text \<open>The assignment \<^verbatim>\<open>value->value.u32 = w\<close>.\<close>

definition store_u32 :: "addr \<Rightarrow> u32 \<Rightarrow> state \<Rightarrow> state option" where
  "store_u32 p w s =
     (case cell (heap s) p of
        None \<Rightarrow> None
      | Some v \<Rightarrow> Some (s\<lparr>heap := (heap s)[p := Some (v\<lparr>payload := U32 w\<rparr>)]\<rparr>))"

section \<open>The weak-reference table\<close>

text \<open>
  Modelled from the spec: the table primitives of \<^verbatim>\<open>mgba-util/table.h\<close> on \<open>weakrefs\<close>, which
  \<^verbatim>\<open>mScriptContextInit\<close> sets up with \<^verbatim>\<open>mScriptValueDeref\<close> as the release routine: an entry
  that leaves the table (removed, or replaced by another value) is released.
\<close>

definition TableLookup :: "(u32 \<rightharpoonup> addr) \<Rightarrow> u32 \<Rightarrow> addr option" where
  "TableLookup t k = t k"

definition TableInsert :: "u32 \<Rightarrow> addr \<Rightarrow> state \<Rightarrow> state option" where
  "TableInsert k v s =
     (case weakrefs s k of
        None \<Rightarrow> Some (s\<lparr>weakrefs := (weakrefs s)(k \<mapsto> v)\<rparr>)
      | Some old \<Rightarrow>
          if old = v then Some s
          else do {
            s1 \<leftarrow> mScriptValueDeref old s;
            Some (s1\<lparr>weakrefs := (weakrefs s1)(k \<mapsto> v)\<rparr>)
          })"

definition TableRemove :: "u32 \<Rightarrow> state \<Rightarrow> state option" where
  "TableRemove k s =
     (case weakrefs s k of
        None \<Rightarrow> Some s
      | Some old \<Rightarrow> do {
          s1 \<leftarrow> mScriptValueDeref old s;
          Some (s1\<lparr>weakrefs := (weakrefs s1)(k := None)\<rparr>)
        })"

definition mScriptContextInit :: "state \<Rightarrow> state" where
  "mScriptContextInit s =
     s\<lparr>rootScope := Map.empty, engines := [], refPool := [],
       weakrefs := Map.empty, nextWeakref := 0\<rparr>"

text \<open>
  The loop \<^verbatim>\<open>while (TableLookup(&context->weakrefs, context->nextWeakref)) ++context->nextWeakref;\<close>
  of \<^verbatim>\<open>mScriptContextSetWeakref\<close>. The counter is a \<^verbatim>\<open>uint32_t\<close> and wraps around; on a
  table with no free handle the loop does not end, which is the value \<open>None\<close>.
\<close>

partial_function (option) skipOccupied :: "(u32 \<rightharpoonup> addr) \<Rightarrow> u32 \<Rightarrow> u32 option" where
  "skipOccupied t n =
     (if TableLookup t n \<noteq> None then skipOccupied t (n + 1) else Some n)"

definition mScriptContextSetWeakref :: "addr \<Rightarrow> state \<Rightarrow> (u32 \<times> state) option" where
  "mScriptContextSetWeakref value s = do {
     s1 \<leftarrow> mScriptValueRef value s;
     s2 \<leftarrow> TableInsert (nextWeakref s1) value s1;
     n \<leftarrow> skipOccupied (weakrefs s2) (nextWeakref s2 + 1);
     Some (nextWeakref s2, s2\<lparr>nextWeakref := n\<rparr>)
   }"

definition mScriptContextMakeWeakref :: "addr \<Rightarrow> state \<Rightarrow> (addr \<times> state) option" where
  "mScriptContextMakeWeakref value s = do {
     (weakref, s1) \<leftarrow> mScriptContextSetWeakref value s;
     s2 \<leftarrow> mScriptValueDeref value s1;
     (value', s3) \<leftarrow> Some (mScriptValueAlloc mSCRIPT_TYPE_MS_WEAKREF s2);
     s4 \<leftarrow> store_u32 value' weakref s3;
     Some (value', s4)
   }"

definition mScriptContextAccessWeakref :: "addr \<Rightarrow> state \<Rightarrow> (addr option \<times> state) option" where
  "mScriptContextAccessWeakref value s = do {
     v \<leftarrow> cell (heap s) value;
     if descriptor (type v) \<noteq> descriptor mSCRIPT_TYPE_MS_WEAKREF then Some (Some value, s)
     else do {
       w \<leftarrow> u32_of (payload v);
       Some (TableLookup (weakrefs s) w, s)
     }
   }"

definition mScriptContextClearWeakref :: "u32 \<Rightarrow> state \<Rightarrow> state option" where
  "mScriptContextClearWeakref weakref s = TableRemove weakref s"

section \<open>The deferred-release pool\<close>

definition mScriptContextFillPool :: "addr \<Rightarrow> state \<Rightarrow> state option" where
  "mScriptContextFillPool value s = do {
     v \<leftarrow> cell (heap s) value;
     if refs v = mSCRIPT_VALUE_UNREF then Some s
     else (case base (type v) of
         mSCRIPT_TYPE_SINT \<Rightarrow> Some s
       | mSCRIPT_TYPE_UINT \<Rightarrow> Some s
       | mSCRIPT_TYPE_FLOAT \<Rightarrow> Some s
       | _ \<Rightarrow>
           Some (s\<lparr>refPool := refPool s @
             [\<lparr>type = mSCRIPT_TYPE_MS_WRAPPER, refs = mSCRIPT_VALUE_UNREF,
               payload = Opaque (Some value)\<rparr>]\<rparr>))
   }"

text \<open>
  Modelled from the spec: \<^verbatim>\<open>mScriptValueUnwrap\<close>: the value a wrapper entry wraps, and
  \<^verbatim>\<open>NULL\<close> for an entry that is not a wrapper.
\<close>

definition mScriptValueUnwrap :: "mScriptValue \<Rightarrow> addr option option" where
  "mScriptValueUnwrap v =
     (if descriptor (type v) = descriptor mSCRIPT_TYPE_MS_WRAPPER then opaque_of (payload v)
      else Some None)"

lemma mScriptValueDeref_refPool:
  "mScriptValueDeref p s = Some s' \<Longrightarrow> refPool s' = refPool s"
  by (auto simp: mScriptValueDeref_def emit_def split: option.splits if_splits)

text \<open>The loop of \<^verbatim>\<open>mScriptContextDrainPool\<close>, from index \<open>i\<close>.\<close>

function drainFrom :: "nat \<Rightarrow> state \<Rightarrow> state option" where
  "drainFrom i s =
     (if i < length (refPool s) then do {
        value \<leftarrow> mScriptValueUnwrap (refPool s ! i);
        s1 \<leftarrow> (case value of None \<Rightarrow> Some s | Some p \<Rightarrow> mScriptValueDeref p s);
        drainFrom (i + 1) s1
      }
      else Some s)"
  by pat_completeness auto
termination
  by (relation "measure (\<lambda>(i, s). length (refPool s) - i)")
     (auto split: option.splits dest: mScriptValueDeref_refPool)

declare drainFrom.simps [simp del]

definition mScriptContextDrainPool :: "state \<Rightarrow> state option" where
  "mScriptContextDrainPool s = do {
     s1 \<leftarrow> drainFrom 0 s;
     Some (s1\<lparr>refPool := []\<rparr>)
   }"

section \<open>Hash tables: the engines and the root scope\<close>

text \<open>
  Modelled from the spec: \<^verbatim>\<open>HashTableEnumerate\<close>: the handler is called on every entry, with
  the user data it may update.
\<close>

fun HashTableEnumerate ::
  "(string \<times> 'v) list \<Rightarrow> (string \<Rightarrow> 'v \<Rightarrow> 'u \<Rightarrow> state \<Rightarrow> 'u \<times> state) \<Rightarrow> 'u \<Rightarrow> state \<Rightarrow> 'u \<times> state"
where
  "HashTableEnumerate [] handler user s = (user, s)"
| "HashTableEnumerate ((k, v) # rest) handler user s =
     (case handler k v user s of (user', s') \<Rightarrow> HashTableEnumerate rest handler user' s')"

definition engineContextDestroy :: "mScriptEngineContext \<Rightarrow> state \<Rightarrow> state" where
  "engineContextDestroy ectx s = emit (EngineDestroy (self ectx)) s"

text \<open>
  Modelled from the spec: \<^verbatim>\<open>HashTableInsert\<close> on \<open>engines\<close> (release routine
  \<^verbatim>\<open>_engineContextDestroy\<close>) and \<^verbatim>\<open>HashTableInsert\<close>, \<^verbatim>\<open>HashTableRemove\<close> on \<open>rootScope\<close>
  (release routine \<^verbatim>\<open>mScriptValueDeref\<close>).
\<close>

definition HashTableInsert_engines :: "string \<Rightarrow> mScriptEngineContext \<Rightarrow> state \<Rightarrow> state" where
  "HashTableInsert_engines k v s =
     (case map_of (engines s) k of
        None \<Rightarrow> s\<lparr>engines := AList.update k v (engines s)\<rparr>
      | Some old \<Rightarrow>
          if self old = self v then s\<lparr>engines := AList.update k v (engines s)\<rparr>
          else (engineContextDestroy old s)\<lparr>engines := AList.update k v (engines s)\<rparr>)"

definition HashTableLookup :: "(string \<rightharpoonup> addr) \<Rightarrow> string \<Rightarrow> addr option" where
  "HashTableLookup t k = t k"

definition HashTableInsert :: "string \<Rightarrow> addr \<Rightarrow> state \<Rightarrow> state option" where
  "HashTableInsert k v s =
     (case rootScope s k of
        None \<Rightarrow> Some (s\<lparr>rootScope := (rootScope s)(k \<mapsto> v)\<rparr>)
      | Some old \<Rightarrow>
          if old = v then Some s
          else do {
            s1 \<leftarrow> mScriptValueDeref old s;
            Some (s1\<lparr>rootScope := (rootScope s1)(k \<mapsto> v)\<rparr>)
          })"

definition HashTableRemove :: "string \<Rightarrow> state \<Rightarrow> state option" where
  "HashTableRemove k s =
     (case rootScope s k of
        None \<Rightarrow> Some s
      | Some old \<Rightarrow> do {
          s1 \<leftarrow> mScriptValueDeref old s;
          Some (s1\<lparr>rootScope := (rootScope s1)(k := None)\<rparr>)
        })"

section \<open>Engine registration\<close>

record mScriptEngine2 =
  name :: string
  create :: "state \<Rightarrow> mScriptEngineContext option"

definition mScriptContextRegisterEngine ::
  "mScriptEngine2 \<Rightarrow> state \<Rightarrow> mScriptEngineContext option \<times> state"
where
  "mScriptContextRegisterEngine engine s =
     (let ectx = create engine s;
          s1 = emit (EngineCreate (name engine)) s
      in case ectx of
           None \<Rightarrow> (None, s1)
         | Some e \<Rightarrow> (Some e, HashTableInsert_engines (name engine) e s1))"

section \<open>Globals\<close>

record mScriptKVPair =
  pair_key :: string
  pair_value :: addr

definition contextAddGlobal ::
  "string \<Rightarrow> mScriptEngineContext \<Rightarrow> mScriptKVPair \<Rightarrow> state \<Rightarrow> mScriptKVPair \<times> state"
where
  "contextAddGlobal key ectx pair s =
     (pair, emit (EngineSetGlobal (self ectx) (pair_key pair) (Some (pair_value pair))) s)"

definition contextRemoveGlobal ::
  "string \<Rightarrow> mScriptEngineContext \<Rightarrow> string \<Rightarrow> state \<Rightarrow> string \<times> state"
where
  "contextRemoveGlobal key ectx user s =
     (user, emit (EngineSetGlobal (self ectx) user None) s)"

definition mScriptContextSetGlobal :: "string \<Rightarrow> addr \<Rightarrow> state \<Rightarrow> state option" where
  "mScriptContextSetGlobal key value s = do {
     s1 \<leftarrow> (case HashTableLookup (rootScope s) key of
              None \<Rightarrow> Some s
            | Some oldValue \<Rightarrow> do {
                ov \<leftarrow> cell (heap s) oldValue;
                w \<leftarrow> u32_of (payload ov);
                mScriptContextClearWeakref w s
              });
     (weakref, s2) \<leftarrow> mScriptContextSetWeakref value s1;
     (value', s3) \<leftarrow> Some (mScriptValueAlloc mSCRIPT_TYPE_MS_WEAKREF s2);
     s4 \<leftarrow> store_u32 value' weakref s3;
     s5 \<leftarrow> HashTableInsert key value' s4;
     Some (snd (HashTableEnumerate (engines s5) contextAddGlobal
                  \<lparr>pair_key = key, pair_value = value'\<rparr> s5))
   }"

definition mScriptContextRemoveGlobal :: "string \<Rightarrow> state \<Rightarrow> state option" where
  "mScriptContextRemoveGlobal key s =
     (if HashTableLookup (rootScope s) key = None then Some s
      else do {
        s1 \<leftarrow> Some (snd (HashTableEnumerate (engines s) contextRemoveGlobal key s));
        (case HashTableLookup (rootScope s1) key of
           None \<Rightarrow> Some s1
         | Some oldValue \<Rightarrow> do {
             ov \<leftarrow> cell (heap s1) oldValue;
             w \<leftarrow> u32_of (payload ov);
             s2 \<leftarrow> mScriptContextClearWeakref w s1;
             HashTableRemove key s2
           })
      })"

section \<open>Loading a script\<close>

record mScriptFileInfo =
  info_name :: string
  info_vf :: addr
  info_context :: "mScriptEngineContext option"

definition contextFindForFile ::
  "string \<Rightarrow> mScriptEngineContext \<Rightarrow> mScriptFileInfo \<Rightarrow> state \<Rightarrow> mScriptFileInfo \<times> state"
where
  "contextFindForFile key ectx info s =
     (if info_context info \<noteq> None then (info, s)
      else if isScript ectx (info_name info) (info_vf info)
        then (info\<lparr>info_context := Some ectx\<rparr>,
              emit (EngineIsScript (self ectx) (info_name info) (info_vf info)) s)
        else (info, emit (EngineIsScript (self ectx) (info_name info) (info_vf info)) s))"

definition mScriptContextLoadVF :: "string \<Rightarrow> addr \<Rightarrow> state \<Rightarrow> bool \<times> state" where
  "mScriptContextLoadVF nm vf s =
     (case HashTableEnumerate (engines s) contextFindForFile
             \<lparr>info_name = nm, info_vf = vf, info_context = None\<rparr> s of
        (info, s1) \<Rightarrow>
          (case info_context info of
             None \<Rightarrow> (False, s1)
           | Some c \<Rightarrow> (load c vf None, emit (EngineLoad (self c) vf None) s1)))"

section \<open>Invocation\<close>

record mScriptFrame =
  arguments :: "mScriptValue list"

text \<open>\<^verbatim>\<open>struct mScriptFunction\<close>: the native call operation and the context it captured.\<close>

record mScriptFunction =
  call :: "mScriptFrame \<Rightarrow> addr option \<Rightarrow> bool \<times> mScriptFrame"
  fn_context :: "addr option"

datatype invokeEvent =
    CoerceFrame "mScriptType list" "mScriptValue list"
  | FunctionCall addr mScriptFrame "addr option"

text \<open>
  \<^verbatim>\<open>mScriptInvoke\<close>. The coercion \<^verbatim>\<open>mScriptCoerceFrame\<close> belongs to the type system and is a
  parameter: it answers whether the arguments fit the signature and gives the argument list it
  leaves behind. \<open>fns\<close> is the memory holding the function objects a value's \<^verbatim>\<open>opaque\<close>
  member points to.
\<close>

definition mScriptInvoke ::
  "(mScriptType list \<Rightarrow> mScriptValue list \<Rightarrow> bool \<times> mScriptValue list) \<Rightarrow>
   (addr \<rightharpoonup> mScriptFunction) \<Rightarrow> mScriptValue \<Rightarrow> mScriptFrame \<Rightarrow>
   (bool \<times> mScriptFrame \<times> invokeEvent list) option"
where
  "mScriptInvoke mScriptCoerceFrame fns val frame =
     (if base (type val) \<noteq> mSCRIPT_TYPE_FUNCTION then Some (False, frame, [])
      else
        let signature = parameters (type val);
            coerced = mScriptCoerceFrame signature (arguments frame);
            frame1 = frame\<lparr>arguments := snd coerced\<rparr>;
            ev = CoerceFrame signature (arguments frame)
        in if \<not> fst coerced then Some (False, frame1, [ev])
           else do {
             p \<leftarrow> opaque_of (payload val);
             a \<leftarrow> p;
             fn \<leftarrow> fns a;
             Some (fst (call fn frame1 (fn_context fn)),
                   snd (call fn frame1 (fn_context fn)),
                   [ev, FunctionCall a frame1 (fn_context fn)])
           })"

section \<open>Sequences of table operations\<close>

text \<open>
  The two operations that change the weak-reference table, as data, and a run of them: a run
  has a result when every call in it has one.
\<close>

datatype weakrefOp = OpSetWeakref addr | OpClearWeakref u32

fun applyWeakrefOp :: "weakrefOp \<Rightarrow> state \<Rightarrow> state option" where
  "applyWeakrefOp (OpSetWeakref v) s = map_option snd (mScriptContextSetWeakref v s)"
| "applyWeakrefOp (OpClearWeakref h) s = mScriptContextClearWeakref h s"

fun runWeakrefOps :: "weakrefOp list \<Rightarrow> state \<Rightarrow> state option" where
  "runWeakrefOps [] s = Some s"
| "runWeakrefOps (x # xs) s = Option.bind (applyWeakrefOp x s) (runWeakrefOps xs)"

text \<open>The handles a run of table operations gives out, in order.\<close>

fun issuedHandles :: "weakrefOp list \<Rightarrow> state \<Rightarrow> u32 list" where
  "issuedHandles [] s = []"
| "issuedHandles (x # xs) s =
     (case applyWeakrefOp x s of
        None \<Rightarrow> []
      | Some s' \<Rightarrow>
          (case x of OpSetWeakref v \<Rightarrow> [nextWeakref s] | OpClearWeakref h \<Rightarrow> [])
          @ issuedHandles xs s')"

section \<open>Runs of fills, and what a pool holds\<close>

text \<open>A run of \<^verbatim>\<open>mScriptContextFillPool\<close> calls.\<close>

fun fillPoolAll :: "addr list \<Rightarrow> state \<Rightarrow> state option" where
  "fillPoolAll [] s = Some s"
| "fillPoolAll (v # vs) s = Option.bind (mScriptContextFillPool v s) (fillPoolAll vs)"

text \<open>
  The spec's words for the pool: a value is accepted when it is neither in the sentinel state
  nor scalar; the entry made for it is a sentinel-state wrapper around its address.
\<close>

definition poolAccepts :: "mScriptValue option list \<Rightarrow> addr \<Rightarrow> bool" where
  "poolAccepts h p =
     (case cell h p of
        None \<Rightarrow> False
      | Some v \<Rightarrow> refs v \<noteq> mSCRIPT_VALUE_UNREF \<and> \<not> isScalar v)"

definition wrapperOf :: "addr \<Rightarrow> mScriptValue" where
  "wrapperOf p =
     \<lparr>type = mSCRIPT_TYPE_MS_WRAPPER, refs = mSCRIPT_VALUE_UNREF, payload = Opaque (Some p)\<rparr>"

text \<open>The addresses the entries of a pool wrap, in pool order.\<close>

definition poolTargets :: "mScriptValue list \<Rightarrow> addr list" where
  "poolTargets pool =
     List.map_filter (\<lambda>e. case mScriptValueUnwrap e of Some (Some p) \<Rightarrow> Some p | _ \<Rightarrow> None) pool"

definition derefCount :: "event list \<Rightarrow> addr \<Rightarrow> nat" where
  "derefCount evs p = count_list evs (ValueDeref p)"

text \<open>
  Two values of the same type and payload: what the reference-count primitives keep of a
  value that stays live (they change counts and destroy, and never bring a value back).
\<close>

definition sameShape :: "mScriptValue \<Rightarrow> mScriptValue \<Rightarrow> bool" where
  "sameShape x y = (type x = type y \<and> payload x = payload y)"

section \<open>Owners and reference counts\<close>

text \<open>
  The reference discipline the spec asks for (a count stands for the owners of a value, and
  each owner releases its reference once), as predicates on a state. They are what the
  theorems below assume of a context and of a caller, and no part of the code. A value is
  counted when \<^verbatim>\<open>mScriptValueRef\<close> and \<^verbatim>\<open>mScriptValueDeref\<close> change its count.
\<close>

definition counted :: "mScriptValue \<Rightarrow> bool" where
  "counted y = (\<not> isScalar y \<and> refs y \<noteq> mSCRIPT_VALUE_UNREF)"

text \<open>What the two primitives make of a value; \<open>None\<close> is the destroyed value.\<close>

definition afterRef :: "mScriptValue \<Rightarrow> mScriptValue" where
  "afterRef y = (if counted y then y\<lparr>refs := refs y + 1\<rparr> else y)"

definition afterDeref :: "mScriptValue \<Rightarrow> mScriptValue option" where
  "afterDeref y =
     (if counted y then (if refs y = 1 then None else Some (y\<lparr>refs := refs y - 1\<rparr>))
      else Some y)"

text \<open>
  The number of table entries that hold address \<open>a\<close>, and the number of owners the context
  has for it: its table entries, and one more when the root scope holds it.
\<close>

definition holders :: "(u32 \<rightharpoonup> addr) \<Rightarrow> addr \<Rightarrow> nat" where
  "holders t a = card {h. t h = Some a}"

definition owners :: "state \<Rightarrow> addr \<Rightarrow> nat" where
  "owners s a = holders (weakrefs s) a + (if a \<in> ran (rootScope s) then 1 else 0)"

text \<open>
  A count covers \<open>n\<close> owners when it is at least \<open>n\<close> (a negative count never reaches zero and
  covers any number); it exceeds them when one more reference is left for the caller.
\<close>

definition covers :: "nat \<Rightarrow> mScriptValue \<Rightarrow> bool" where
  "covers n y = (counted y \<longrightarrow> refs y < 0 \<or> int n \<le> refs y)"

definition exceeds :: "nat \<Rightarrow> mScriptValue \<Rightarrow> bool" where
  "exceeds n y = (counted y \<longrightarrow> int n < refs y)"

definition covered :: "state \<Rightarrow> addr \<Rightarrow> bool" where
  "covered s a = (case cell (heap s) a of None \<Rightarrow> False | Some y \<Rightarrow> covers (owners s a) y)"

text \<open>The caller holds a reference to \<open>a\<close> of its own, beside the context's.\<close>

definition callerOwns :: "state \<Rightarrow> addr \<Rightarrow> bool" where
  "callerOwns s a = (case cell (heap s) a of None \<Rightarrow> False | Some y \<Rightarrow> exceeds (owners s a) y)"

text \<open>
  A consistent context: the counter is unoccupied; every value the table or the root scope
  holds is live with a count that covers its owners; every entry of the root scope is a Value
  holding a handle, and no two names share one.
\<close>

definition consistent :: "state \<Rightarrow> bool" where
  "consistent s =
     (weakrefs s (nextWeakref s) = None
      \<and> (\<forall>a \<in> ran (weakrefs s). covered s a)
      \<and> (\<forall>a \<in> ran (rootScope s).
            covered s a \<and> (\<exists>y h. cell (heap s) a = Some y \<and> payload y = U32 h))
      \<and> inj_on (rootScope s) (dom (rootScope s)))"

text \<open>The Value \<^verbatim>\<open>mScriptContextMakeWeakref\<close> allocates for handle \<open>h\<close>.\<close>

definition weakValue :: "u32 \<Rightarrow> mScriptValue" where
  "weakValue h = \<lparr>type = mSCRIPT_TYPE_MS_WEAKREF, refs = 1, payload = U32 h\<rparr>"

text \<open>
  The release of an entry of the root scope: the entry goes, and the Value it held loses
  the reference the root scope had.
\<close>

definition releaseEntry :: "string \<Rightarrow> addr \<Rightarrow> mScriptValue \<Rightarrow> state \<Rightarrow> state" where
  "releaseEntry k old z s =
     s\<lparr>rootScope := (rootScope s)(k := None), heap := (heap s)[old := afterDeref z]\<rparr>"

section \<open>Example states\<close>

text \<open>
  Concrete states, values and engines on which the operations are run below. Three engines are
  registered in \<open>exE\<close>: the first claims no script, the second and third claim every script.
\<close>

definition someValue :: mScriptValue where
  "someValue = \<lparr>type = mScriptType 20 (mSCRIPT_TYPE_OTHER 0) [], refs = 1, payload = Opaque None\<rparr>"

definition ex0 :: state where
  "ex0 = \<lparr>rootScope = Map.empty, engines = [], refPool = [], weakrefs = Map.empty,
           nextWeakref = 0, heap = [Some someValue], trace = []\<rparr>"

definition ex1 :: state where
  "ex1 = ex0\<lparr>weakrefs := [0 \<mapsto> 0], nextWeakref := 1,
             heap := [Some someValue, Some (weakValue 0)],
             trace := [ValueRef 0, ValueDeref 0]\<rparr>"



definition ex4 :: state where
  "ex4 = ex0\<lparr>weakrefs := [1 \<mapsto> 0], nextWeakref := 2,
             heap := [Some (someValue\<lparr>refs := 2\<rparr>)],
             trace := [ValueRef 0, ValueRef 0, ValueDeref 0]\<rparr>"

definition ex5 :: state where
  "ex5 = ex0\<lparr>weakrefs := [1 \<mapsto> 0, 2 \<mapsto> 0], nextWeakref := 3,
             heap := [Some (someValue\<lparr>refs := 3\<rparr>)],
             trace := [ValueRef 0, ValueRef 0, ValueDeref 0, ValueRef 0]\<rparr>"

definition engineA :: mScriptEngineContext where
  "engineA = \<lparr>self = 10, isScript = (\<lambda>nm vf. False), load = (\<lambda>vf err. False)\<rparr>"

definition engineB :: mScriptEngineContext where
  "engineB = \<lparr>self = 11, isScript = (\<lambda>nm vf. True), load = (\<lambda>vf err. True)\<rparr>"

definition engineC :: mScriptEngineContext where
  "engineC = \<lparr>self = 12, isScript = (\<lambda>nm vf. True), load = (\<lambda>vf err. False)\<rparr>"

definition exE :: state where
  "exE = ex0\<lparr>engines := [(''a'', engineA), (''b'', engineB), (''c'', engineC)]\<rparr>"

definition exG :: state where
  "exG = exE\<lparr>rootScope := [''x'' \<mapsto> 1], weakrefs := [0 \<mapsto> 0], nextWeakref := 1,
             heap := [Some (someValue\<lparr>refs := 2\<rparr>), Some (weakValue 0)],
             trace := [ValueRef 0, EngineSetGlobal 10 ''x'' (Some 1),
                       EngineSetGlobal 11 ''x'' (Some 1), EngineSetGlobal 12 ''x'' (Some 1)]\<rparr>"

definition exR :: state where
  "exR = exE\<lparr>nextWeakref := 1,
             heap := [Some someValue, None],
             trace := trace exG @ [EngineSetGlobal 10 ''x'' None, EngineSetGlobal 11 ''x'' None,
                       EngineSetGlobal 12 ''x'' None, ValueDeref 0, ValueDeref 1]\<rparr>"


definition exP0 :: state where
  "exP0 = ex0\<lparr>heap := [Some someValue,
                        Some \<lparr>type = mScriptType 21 mSCRIPT_TYPE_SINT [], refs = 1, payload = U32 7\<rparr>,
                        Some (someValue\<lparr>refs := mSCRIPT_VALUE_UNREF\<rparr>),
                        Some (someValue\<lparr>refs := 2\<rparr>)]\<rparr>"

definition exP1 :: state where
  "exP1 = exP0\<lparr>refPool := [wrapperOf 0, wrapperOf 3]\<rparr>"

definition exP2 :: state where
  "exP2 = exP0\<lparr>heap := [None,
                        Some \<lparr>type = mScriptType 21 mSCRIPT_TYPE_SINT [], refs = 1, payload = U32 7\<rparr>,
                        Some (someValue\<lparr>refs := mSCRIPT_VALUE_UNREF\<rparr>),
                        Some someValue],
               trace := [ValueDeref 0, ValueDeref 3]\<rparr>"

definition exL :: state where
  "exL = exE\<lparr>trace := [EngineIsScript 10 ''s.lua'' 5, EngineIsScript 11 ''s.lua'' 5,
                        EngineLoad 11 5 None]\<rparr>"

definition luaEngine :: mScriptEngine2 where
  "luaEngine = \<lparr>name = ''lua'', create = (\<lambda>s. Some engineB)\<rparr>"

definition badEngine :: mScriptEngine2 where
  "badEngine = \<lparr>name = ''bad'', create = (\<lambda>s. None)\<rparr>"

text \<open>A coercion that only compares the number of arguments with the signature.\<close>

definition arityCoerce :: "mScriptType list \<Rightarrow> mScriptValue list \<Rightarrow> bool \<times> mScriptValue list" where
  "arityCoerce sig args = (length sig = length args, args)"

definition sintType :: mScriptType where
  "sintType = mScriptType 21 mSCRIPT_TYPE_SINT []"

definition sintValue :: "u32 \<Rightarrow> mScriptValue" where
  "sintValue n = \<lparr>type = sintType, refs = mSCRIPT_VALUE_UNREF, payload = U32 n\<rparr>"

definition nativeFn :: mScriptFunction where
  "nativeFn = \<lparr>call = (\<lambda>frame ctx. (True, frame\<lparr>arguments := []\<rparr>)), fn_context = Some 9\<rparr>"

definition fnValue :: mScriptValue where
  "fnValue = \<lparr>type = mScriptType 22 mSCRIPT_TYPE_FUNCTION [sintType, sintType], refs = 1,
              payload = Opaque (Some 4)\<rparr>"


definition exD1 :: state where
  "exD1 = exP0\<lparr>refPool := [wrapperOf 3, wrapperOf 3]\<rparr>"

definition exD2 :: state where
  "exD2 = exP0\<lparr>heap := [Some someValue,
                        Some \<lparr>type = mScriptType 21 mSCRIPT_TYPE_SINT [], refs = 1, payload = U32 7\<rparr>,
                        Some (someValue\<lparr>refs := mSCRIPT_VALUE_UNREF\<rparr>),
                        None],
               trace := [ValueDeref 3, ValueDeref 3]\<rparr>"

definition lookalikeValue :: mScriptValue where
  "lookalikeValue = \<lparr>type = mScriptType 7 mSCRIPT_TYPE_WEAKREF [], refs = 1, payload = U32 0\<rparr>"

definition exV :: state where
  "exV = ex1\<lparr>heap := [Some someValue, Some (weakValue 0), Some lookalikeValue]\<rparr>"

section \<open>Basic facts\<close>

lemma cell_list_update:
  "cell (h[p := x]) q = (if q = p \<and> p < length h then x else cell h q)"
  by (auto simp: cell_def)

lemma cell_append:
  "cell (h @ [x]) q = (if q = length h then x else cell h q)"
  by (auto simp: cell_def nth_append)

lemma cell_Some_less: "cell h p = Some v \<Longrightarrow> p < length h"
  by (auto simp: cell_def split: if_splits)

lemma skipOccupied_free:
  assumes "skipOccupied t n = Some m"
  shows "t m = None"
  by (rule skipOccupied.raw_induct[where P = "\<lambda>t n m. t m = None", OF _ assms])
     (auto simp: TableLookup_def split: if_splits)

lemma unat_step: "(k::u32) \<noteq> n \<Longrightarrow> unat (k - (n + 1)) < unat (k - n)"
proof -
  assume "k \<noteq> n"
  then have nz: "k - n \<noteq> 0" by simp
  have eq: "k - (n + 1) = (k - n) - 1" by simp
  from nz show ?thesis unfolding eq by (rule measure_unat)
qed

lemma skipOccupied_returns:
  "t k = None \<Longrightarrow> \<exists>m. skipOccupied t n = Some m"
proof (induction "unat (k - n)" arbitrary: n rule: less_induct)
  case less
  show ?case
  proof (cases "t n")
    case None
    then show ?thesis by (subst skipOccupied.simps) (simp add: TableLookup_def)
  next
    case (Some a)
    with less.prems have "k \<noteq> n" by auto
    then have "unat (k - (n + 1)) < unat (k - n)" by (rule unat_step)
    from less.hyps[OF this less.prems] obtain m where "skipOccupied t (n + 1) = Some m" ..
    with Some show ?thesis by (subst skipOccupied.simps) (simp add: TableLookup_def)
  qed
qed

text \<open>What the reference-count primitives leave alone.\<close>

lemma mScriptValueRef_frame:
  assumes "mScriptValueRef p s = Some s'"
  shows "rootScope s' = rootScope s" "engines s' = engines s" "refPool s' = refPool s"
    "weakrefs s' = weakrefs s" "nextWeakref s' = nextWeakref s"
    "trace s' = trace s @ [ValueRef p]" "length (heap s') = length (heap s)"
    "cell (heap s) p \<noteq> None"
  using assms
  by (auto simp: mScriptValueRef_def emit_def split: option.splits if_splits)

lemma mScriptValueDeref_frame:
  assumes "mScriptValueDeref p s = Some s'"
  shows "rootScope s' = rootScope s" "engines s' = engines s" "refPool s' = refPool s"
    "weakrefs s' = weakrefs s" "nextWeakref s' = nextWeakref s"
    "trace s' = trace s @ [ValueDeref p]" "length (heap s') = length (heap s)"
    "cell (heap s) p \<noteq> None"
  using assms
  by (auto simp: mScriptValueDeref_def emit_def split: option.splits if_splits)

lemma mScriptValueRef_other:
  "mScriptValueRef p s = Some s' \<Longrightarrow> q \<noteq> p \<Longrightarrow> cell (heap s') q = cell (heap s) q"
  by (auto simp: mScriptValueRef_def emit_def cell_list_update split: option.splits if_splits)

lemma mScriptValueDeref_other:
  "mScriptValueDeref p s = Some s' \<Longrightarrow> q \<noteq> p \<Longrightarrow> cell (heap s') q = cell (heap s) q"
  by (auto simp: mScriptValueDeref_def emit_def cell_list_update split: option.splits if_splits)



lemma TableRemove_frame:
  assumes "TableRemove k s = Some s'"
  shows "rootScope s' = rootScope s" "engines s' = engines s" "refPool s' = refPool s"
    "weakrefs s' = (weakrefs s)(k := None)" "nextWeakref s' = nextWeakref s"
    "trace s' = trace s @ (case weakrefs s k of None \<Rightarrow> [] | Some v \<Rightarrow> [ValueDeref v])"
    "length (heap s') = length (heap s)"
  using assms
  by (auto simp: TableRemove_def mScriptValueDeref_frame split: option.splits Option.bind_splits)

lemma TableInsert_frame:
  assumes "TableInsert k v s = Some s'"
  shows "rootScope s' = rootScope s" "engines s' = engines s" "refPool s' = refPool s"
    "weakrefs s' = (weakrefs s)(k \<mapsto> v)" "nextWeakref s' = nextWeakref s"
    "trace s' = trace s @ (case weakrefs s k of None \<Rightarrow> []
                           | Some old \<Rightarrow> if old = v then [] else [ValueDeref old])"
    "length (heap s') = length (heap s)"
  using assms
  by (auto simp: TableInsert_def mScriptValueDeref_frame map_upd_triv
      split: option.splits Option.bind_splits if_splits)




lemma mScriptContextSetWeakref_effect:
  assumes "mScriptContextSetWeakref v s = Some (h, s')"
  shows "h = nextWeakref s" "weakrefs s' = (weakrefs s)(h \<mapsto> v)"
    "weakrefs s' (nextWeakref s') = None"
    "rootScope s' = rootScope s" "engines s' = engines s" "refPool s' = refPool s"
    "length (heap s') = length (heap s)" "cell (heap s) v \<noteq> None"
proof -
  from assms obtain s1 s2 n where
    r: "mScriptValueRef v s = Some s1" and
    i: "TableInsert (nextWeakref s1) v s1 = Some s2" and
    k: "skipOccupied (weakrefs s2) (nextWeakref s2 + 1) = Some n" and
    h: "h = nextWeakref s2" and s': "s' = s2\<lparr>nextWeakref := n\<rparr>"
    by (auto simp: mScriptContextSetWeakref_def split: Option.bind_splits)
  note rf = mScriptValueRef_frame[OF r] and tf = TableInsert_frame[OF i]
  show "h = nextWeakref s" using h rf tf by simp
  show "weakrefs s' = (weakrefs s)(h \<mapsto> v)" using h s' rf tf by simp
  show "weakrefs s' (nextWeakref s') = None" using skipOccupied_free[OF k] s' by simp
  show "rootScope s' = rootScope s" "engines s' = engines s" "refPool s' = refPool s"
    "length (heap s') = length (heap s)" "cell (heap s) v \<noteq> None"
    using s' rf tf by simp_all
qed

lemma mScriptContextSetWeakref_trace:
  assumes "mScriptContextSetWeakref v s = Some (h, s')"
  shows "trace s' = trace s @ ValueRef v #
           (case weakrefs s (nextWeakref s) of None \<Rightarrow> []
            | Some old \<Rightarrow> if old = v then [] else [ValueDeref old])"
proof -
  from assms obtain s1 s2 n where
    r: "mScriptValueRef v s = Some s1" and
    i: "TableInsert (nextWeakref s1) v s1 = Some s2" and
    s': "s' = s2\<lparr>nextWeakref := n\<rparr>"
    by (auto simp: mScriptContextSetWeakref_def split: Option.bind_splits)
  note rf = mScriptValueRef_frame[OF r] and tf = TableInsert_frame[OF i]
  show ?thesis using s' rf tf by simp
qed


lemma mScriptContextSetWeakref_returns:
  assumes live: "cell (heap s) v \<noteq> None"
      and free: "weakrefs s (nextWeakref s) = None"
      and room: "weakrefs s k = None" "k \<noteq> nextWeakref s"
  shows "\<exists>s'. mScriptContextSetWeakref v s = Some (nextWeakref s, s')"
proof -
  from live obtain s1 where r: "mScriptValueRef v s = Some s1"
    by (auto simp: mScriptValueRef_def split: option.splits)
  note rf = mScriptValueRef_frame[OF r]
  from free rf have i: "TableInsert (nextWeakref s1) v s1 = Some (s1\<lparr>weakrefs := (weakrefs s1)(nextWeakref s1 \<mapsto> v)\<rparr>)"
    by (simp add: TableInsert_def)
  from room rf have "((weakrefs s1)(nextWeakref s1 \<mapsto> v)) k = None" by simp
  from skipOccupied_returns[of "(weakrefs s1)(nextWeakref s1 \<mapsto> v)" k "nextWeakref s1 + 1", OF this]
  obtain n where
    "skipOccupied ((weakrefs s1)(nextWeakref s1 \<mapsto> v)) (nextWeakref s1 + 1) = Some n" ..
  with r i rf show ?thesis by (simp add: mScriptContextSetWeakref_def)
qed

lemma applyWeakrefOp_counter_free:
  assumes "applyWeakrefOp x s = Some s'" and "weakrefs s (nextWeakref s) = None"
  shows "weakrefs s' (nextWeakref s') = None"
proof (cases x)
  case (OpSetWeakref v)
  with assms(1) obtain h where "mScriptContextSetWeakref v s = Some (h, s')" by auto
  then show ?thesis by (rule mScriptContextSetWeakref_effect)
next
  case (OpClearWeakref h)
  with assms(1) have "TableRemove h s = Some s'" by (simp add: mScriptContextClearWeakref_def)
  from TableRemove_frame[OF this] assms(2) show ?thesis by simp
qed

lemma runWeakrefOps_counter_free:
  "runWeakrefOps xs s = Some s' \<Longrightarrow> weakrefs s (nextWeakref s) = None \<Longrightarrow>
     weakrefs s' (nextWeakref s') = None"
proof (induction xs arbitrary: s)
  case Nil
  then show ?case by simp
next
  case (Cons x xs)
  from Cons.prems(1) obtain s1 where
    a: "applyWeakrefOp x s = Some s1" and b: "runWeakrefOps xs s1 = Some s'"
    by (auto split: Option.bind_splits)
  from applyWeakrefOp_counter_free[OF a Cons.prems(2)] Cons.IH[OF b] show ?case by blast
qed





lemma TableRemove_other:
  "TableRemove k s = Some s' \<Longrightarrow> weakrefs s k \<noteq> Some q \<Longrightarrow> cell (heap s') q = cell (heap s) q"
  by (auto simp: TableRemove_def mScriptValueDeref_other split: option.splits Option.bind_splits)

lemma mScriptContextMakeWeakref_effect:
  assumes "mScriptContextMakeWeakref v s = Some (w, s1)"
  shows "w = length (heap s)" "v < length (heap s)"
    "weakrefs s1 = (weakrefs s)(nextWeakref s \<mapsto> v)"
    "weakrefs s1 (nextWeakref s1) = None"
    "cell (heap s1) w =
       Some \<lparr>type = mSCRIPT_TYPE_MS_WEAKREF, refs = 1, payload = U32 (nextWeakref s)\<rparr>"
proof -
  from assms obtain h sa sb where
    e: "mScriptContextSetWeakref v s = Some (h, sa)" and
    d: "mScriptValueDeref v sa = Some sb" and
    st: "store_u32 (length (heap sb)) h
           (sb\<lparr>heap := heap sb @ [Some \<lparr>type = mSCRIPT_TYPE_MS_WEAKREF, refs = 1,
                                        payload = Opaque None\<rparr>]\<rparr>) = Some s1" and
    w: "w = length (heap sb)"
    by (auto simp: mScriptContextMakeWeakref_def mScriptValueAlloc_def split: Option.bind_splits)
  note ef = mScriptContextSetWeakref_effect[OF e] and df = mScriptValueDeref_frame[OF d]
  from st have s1: "s1 = sb\<lparr>heap := heap sb @ [Some \<lparr>type = mSCRIPT_TYPE_MS_WEAKREF, refs = 1,
                                        payload = U32 h\<rparr>]\<rparr>"
    by (auto simp: store_u32_def cell_append split: option.splits)
  show "w = length (heap s)" using w ef df by simp
  show "v < length (heap s)" using ef(8) by (auto simp: cell_def split: if_splits)
  show "weakrefs s1 = (weakrefs s)(nextWeakref s \<mapsto> v)" using s1 ef df by simp
  show "weakrefs s1 (nextWeakref s1) = None" using s1 ef df by simp
  show "cell (heap s1) w =
       Some \<lparr>type = mSCRIPT_TYPE_MS_WEAKREF, refs = 1, payload = U32 (nextWeakref s)\<rparr>"
    using s1 w ef(1) by (simp add: cell_append)
qed


text \<open>Definitions unfolded together when an operation is run on a concrete state.\<close>

lemmas heap_defs = cell_def emit_def isScalar_def mSCRIPT_VALUE_UNREF_def mScriptValueRef_def
  mScriptValueDeref_def

lemmas table_defs = TableLookup_def TableInsert_def TableRemove_def skipOccupied.simps
  mScriptContextSetWeakref_def mScriptContextClearWeakref_def


lemmas ex_defs = ex0_def someValue_def weakValue_def

section \<open>The reference discipline\<close>

text \<open>
  The reference counts of the values a context holds follow from the two primitives. The context
  is consistent after \<^verbatim>\<open>mScriptContextInit\<close> (lemma \<open>consistent_Init\<close>), and every operation
  of the file keeps it consistent as long as callers release only references of their own:
  \<open>consistent_SetWeakref\<close>, \<open>consistent_ClearWeakref\<close>, \<open>consistent_MakeWeakref\<close>,
  \<open>HashTableInsert_keeps\<close>, \<open>HashTableRemove_keeps\<close> here, \<open>mScriptContextSetGlobal_total\<close>,
  \<open>mScriptContextRemoveGlobal_total\<close> with the globals, and the lemmas on the pool, the
  engines and the primitives in the section on the other operations.
\<close>

subsection \<open>Counts\<close>


lemma counted_refs_update:
  "counted (y\<lparr>refs := r\<rparr>) = (\<not> isScalar y \<and> r \<noteq> mSCRIPT_VALUE_UNREF)"
  by (simp add: counted_def isScalar_def)

lemma covers_0: "covers 0 y"
  by (auto simp: covers_def)


lemma covers_afterRef_same: "covers n y \<Longrightarrow> covers n (afterRef y)"
  by (auto simp: covers_def afterRef_def counted_refs_update counted_def mSCRIPT_VALUE_UNREF_def)


lemma exceeds_afterRef_same: "exceeds n y \<Longrightarrow> exceeds n (afterRef y)"
  by (auto simp: exceeds_def afterRef_def counted_refs_update)

lemma exceeds_covers: "exceeds n y \<Longrightarrow> covers n y"
  by (auto simp: exceeds_def covers_def)

text \<open>Releasing one of \<open>n\<close> owners: the value goes only when that was the last owner.\<close>

lemma covers_afterDeref:
  "covers (Suc n) y \<Longrightarrow> afterDeref y = Some y' \<Longrightarrow> covers n y'"
  by (auto simp: covers_def afterDeref_def counted_refs_update counted_def split: if_splits)

lemma covers_afterDeref_live:
  "covers (Suc (Suc n)) y \<Longrightarrow> \<exists>y'. afterDeref y = Some y'"
  by (auto simp: covers_def afterDeref_def)

lemma exceeds_afterDeref:
  "exceeds (Suc n) y \<Longrightarrow> \<exists>y'. afterDeref y = Some y' \<and> exceeds n y'"
  by (auto simp: exceeds_def afterDeref_def counted_refs_update)

text \<open>Releasing the caller's own reference.\<close>

lemma exceeds_afterDeref_own:
  "exceeds (Suc n) y \<Longrightarrow> \<exists>y'. afterDeref y = Some y' \<and> covers (Suc n) y'"
  by (auto simp: exceeds_def covers_def afterDeref_def counted_refs_update)


lemma afterRef_shape: "sameShape y (afterRef y)"
  by (simp add: sameShape_def afterRef_def)

lemma afterDeref_shape: "afterDeref y = Some y' \<Longrightarrow> sameShape y y'"
  by (auto simp: sameShape_def afterDeref_def split: if_splits)

subsection \<open>The primitives, cell by cell\<close>

lemma list_update_cell: "cell h p = Some y \<Longrightarrow> h[p := Some y] = h"
proof -
  assume "cell h p = Some y"
  then have "h ! p = Some y" by (auto simp: cell_def split: if_splits)
  then have "h[p := Some y] = h[p := h ! p]" by simp
  then show ?thesis by (simp only: list_update_id)
qed

lemma mScriptValueRef_eq:
  "mScriptValueRef p s =
     (case cell (heap s) p of
        None \<Rightarrow> None
      | Some y \<Rightarrow> Some (s\<lparr>heap := (heap s)[p := Some (afterRef y)],
                          trace := trace s @ [ValueRef p]\<rparr>))"
  by (auto simp: mScriptValueRef_def emit_def afterRef_def counted_def list_update_cell
      split: option.splits)

lemma mScriptValueDeref_eq:
  "mScriptValueDeref p s =
     (case cell (heap s) p of
        None \<Rightarrow> None
      | Some y \<Rightarrow> Some (s\<lparr>heap := (heap s)[p := afterDeref y],
                          trace := trace s @ [ValueDeref p]\<rparr>))"
  by (auto simp: mScriptValueDeref_def emit_def afterDeref_def counted_def list_update_cell
      split: option.splits)

subsection \<open>Holders\<close>

lemma holders_insert:
  "t h = None \<Longrightarrow> holders (t(h \<mapsto> v)) a = holders t a + (if a = v then 1 else 0)"
proof (cases "a = v")
  case True
  assume free: "t h = None"
  have "{k. (t(h \<mapsto> v)) k = Some v} = insert h {k. t k = Some v}"
    by (auto split: if_splits)
  moreover have "h \<notin> {k. t k = Some v}" using free by simp
  then have "card (insert h {k. t k = Some v}) = Suc (card {k. t k = Some v})"
    by (intro card_insert_disjoint) auto
  ultimately show ?thesis using True by (simp add: holders_def)
next
  case False
  assume free: "t h = None"
  from False have "{k. (t(h \<mapsto> v)) k = Some a} = {k. t k = Some a}"
    using free by (auto split: if_splits)
  with False show ?thesis by (simp add: holders_def)
qed

lemma holders_remove:
  "t h = Some v \<Longrightarrow> holders (t(h := None)) a = holders t a - (if a = v then 1 else 0)"
proof (cases "a = v")
  case True
  assume at: "t h = Some v"
  have "{k. (t(h := None)) k = Some v} = {k. t k = Some v} - {h}"
    by (auto split: if_splits)
  moreover have "h \<in> {k. t k = Some v}" using at by simp
  then have "card ({k. t k = Some v} - {h}) = card {k. t k = Some v} - 1"
    by (intro card_Diff_singleton) auto
  ultimately show ?thesis using True by (simp add: holders_def)
next
  case False
  assume at: "t h = Some v"
  from False have "{k. (t(h := None)) k = Some a} = {k. t k = Some a}"
    using at by (auto split: if_splits)
  with False show ?thesis by (simp add: holders_def)
qed

lemma holders_pos: "t h = Some a \<Longrightarrow> 0 < holders t a"
proof -
  assume "t h = Some a"
  then have "h \<in> {k. t k = Some a}" by simp
  then have "{k. t k = Some a} \<noteq> {}" by blast
  then show ?thesis by (simp add: holders_def card_gt_0_iff)
qed

lemma holders_0: "a \<notin> ran t \<Longrightarrow> holders t a = 0"
  by (auto simp: holders_def ran_def)

lemma holders_ran: "0 < holders t a \<Longrightarrow> a \<in> ran t"
  using holders_0 by fastforce

subsection \<open>The table operations, cell by cell\<close>

lemma covered_iff:
  "covered s a \<longleftrightarrow> (\<exists>y. cell (heap s) a = Some y \<and> covers (owners s a) y)"
  by (auto simp: covered_def split: option.splits)

lemma callerOwns_iff:
  "callerOwns s a \<longleftrightarrow> (\<exists>y. cell (heap s) a = Some y \<and> exceeds (owners s a) y)"
  by (auto simp: callerOwns_def split: option.splits)

lemma owners_0: "a \<notin> ran (weakrefs s) \<Longrightarrow> a \<notin> ran (rootScope s) \<Longrightarrow> owners s a = 0"
  by (simp add: owners_def holders_0)

text \<open>In a consistent context every live value has a count that covers its owners.\<close>

lemma consistent_covers:
  assumes "consistent s" and "cell (heap s) a = Some y"
  shows "covers (owners s a) y"
proof (cases "a \<in> ran (weakrefs s) \<or> a \<in> ran (rootScope s)")
  case True
  with assms(1) have "covered s a" by (auto simp: consistent_def)
  with assms(2) show ?thesis by (simp add: covered_iff)
next
  case False
  then have "owners s a = 0" by (simp add: owners_0)
  then show ?thesis by (simp add: covers_0)
qed

lemma consistent_live:
  "consistent s \<Longrightarrow> a \<in> ran (weakrefs s) \<or> a \<in> ran (rootScope s) \<Longrightarrow>
     \<exists>y. cell (heap s) a = Some y"
  by (auto simp: consistent_def covered_iff)




text \<open>\<^verbatim>\<open>mScriptContextClearWeakref\<close>, in full.\<close>

lemma mScriptContextClearWeakref_eq:
  "mScriptContextClearWeakref k s =
     (case weakrefs s k of
        None \<Rightarrow> Some s
      | Some t \<Rightarrow>
          (case cell (heap s) t of
             None \<Rightarrow> None
           | Some x \<Rightarrow>
               Some (s\<lparr>weakrefs := (weakrefs s)(k := None),
                       heap := (heap s)[t := afterDeref x],
                       trace := trace s @ [ValueDeref t]\<rparr>)))"
  by (simp add: mScriptContextClearWeakref_def TableRemove_def mScriptValueDeref_eq
      split: option.splits)

subsection \<open>Consistency is kept\<close>




text \<open>In a consistent context \<^verbatim>\<open>mScriptContextClearWeakref\<close> always returns.\<close>

lemma mScriptContextClearWeakref_returns:
  assumes "consistent s"
  shows "\<exists>s'. mScriptContextClearWeakref k s = Some s'"
proof (cases "weakrefs s k")
  case None
  then show ?thesis by (simp add: mScriptContextClearWeakref_eq)
next
  case (Some t)
  then have "t \<in> ran (weakrefs s)" by (auto simp: ran_def)
  with consistent_live[OF assms] obtain x where "cell (heap s) t = Some x" by blast
  with Some show ?thesis by (simp add: mScriptContextClearWeakref_eq)
qed

lemma ran_remove_subset: "ran (t(k := None)) \<subseteq> ran t"
  by (auto simp: ran_def split: if_splits)

lemma consistent_ClearWeakref:
  assumes c: "consistent s" and clr: "mScriptContextClearWeakref k s = Some s'"
  shows "consistent s'"
proof (cases "weakrefs s k")
  case None
  with clr c show ?thesis by (simp add: mScriptContextClearWeakref_eq)
next
  case (Some t)
  with clr obtain x where x: "cell (heap s) t = Some x" and
    s': "s' = s\<lparr>weakrefs := (weakrefs s)(k := None), heap := (heap s)[t := afterDeref x],
              trace := trace s @ [ValueDeref t]\<rparr>"
    by (auto simp: mScriptContextClearWeakref_eq split: option.splits)
  from x have lt: "t < length (heap s)" by (rule cell_Some_less)
  have cell': "cell (heap s') a = (if a = t then afterDeref x else cell (heap s) a)" for a
    using lt by (simp add: s' cell_list_update)
  have scope': "rootScope s' = rootScope s" by (simp add: s')
  have own': "owners s' a = owners s a - (if a = t then 1 else 0)" for a
    using Some holders_pos[of "weakrefs s" k t] by (auto simp: owners_def s' holders_remove)
  from Some have hpos: "0 < holders (weakrefs s) t" by (rule holders_pos)
  have cov: "covered s' a" if a: "a \<in> ran (weakrefs s') \<or> a \<in> ran (rootScope s)" for a
  proof (cases "a = t")
    case False
    from a ran_remove_subset[of "weakrefs s" k] have "a \<in> ran (weakrefs s) \<or> a \<in> ran (rootScope s)"
      by (auto simp: s')
    with c have "covered s a" by (auto simp: consistent_def)
    with False show ?thesis by (simp add: covered_iff cell' own')
  next
    case True
    have pos': "0 < owners s' t"
    proof (cases "t \<in> ran (rootScope s)")
      case True
      then show ?thesis by (simp add: owners_def scope')
    next
      case False
      with a \<open>a = t\<close> obtain k' where "weakrefs s' k' = Some t" by (auto simp: ran_def)
      then have "0 < holders (weakrefs s') t" by (rule holders_pos)
      then show ?thesis by (simp add: owners_def)
    qed
    from own'[of t] pos' have two: "owners s t = Suc (Suc (owners s' t - 1))" by simp
    from consistent_covers[OF c x] two have cv: "covers (Suc (Suc (owners s' t - 1))) x" by simp
    from covers_afterDeref_live[OF cv] obtain y' where y': "afterDeref x = Some y'" ..
    from covers_afterDeref[OF cv y'] pos' have "covers (owners s' t) y'" by simp
    with True y' show ?thesis by (simp add: covered_iff cell')
  qed
  have pay: "\<exists>y h. cell (heap s') a = Some y \<and> payload y = U32 h" if a: "a \<in> ran (rootScope s)" for a
  proof -
    from a cov have "covered s' a" by simp
    then obtain y' where y': "cell (heap s') a = Some y'" by (auto simp: covered_iff)
    from a c obtain y k' where y: "cell (heap s) a = Some y" "payload y = U32 k'"
      by (auto simp: consistent_def)
    show ?thesis
    proof (cases "a = t")
      case True
      with y' have "afterDeref x = Some y'" by (simp add: cell')
      from afterDeref_shape[OF this] True x y have "payload y' = U32 k'"
        by (simp add: sameShape_def)
      with y' show ?thesis by simp
    next
      case False
      with y show ?thesis by (simp add: cell')
    qed
  qed
  from c have "weakrefs s' (nextWeakref s') = None" "inj_on (rootScope s) (dom (rootScope s))"
    by (simp_all add: consistent_def s')
  then show ?thesis
    unfolding consistent_def scope' using cov pay by blast
qed

lemma callerOwns_ClearWeakref:
  assumes clr: "mScriptContextClearWeakref k s = Some s'" and o: "callerOwns s a"
  shows "callerOwns s' a"
proof (cases "weakrefs s k")
  case None
  with clr o show ?thesis by (simp add: mScriptContextClearWeakref_eq)
next
  case (Some t)
  with clr obtain x where x: "cell (heap s) t = Some x" and
    s': "s' = s\<lparr>weakrefs := (weakrefs s)(k := None), heap := (heap s)[t := afterDeref x],
              trace := trace s @ [ValueDeref t]\<rparr>"
    by (auto simp: mScriptContextClearWeakref_eq split: option.splits)
  from x have lt: "t < length (heap s)" by (rule cell_Some_less)
  have cell': "cell (heap s') b = (if b = t then afterDeref x else cell (heap s) b)" for b
    using lt by (simp add: s' cell_list_update)
  have own': "owners s' b = owners s b - (if b = t then 1 else 0)" for b
    using Some holders_pos[of "weakrefs s" k t] by (auto simp: owners_def s' holders_remove)
  from o obtain y where y: "cell (heap s) a = Some y" "exceeds (owners s a) y"
    by (auto simp: callerOwns_iff)
  show ?thesis
  proof (cases "a = t")
    case False
    with y show ?thesis by (simp add: callerOwns_iff cell' own')
  next
    case True
    from Some have "0 < holders (weakrefs s) t" by (rule holders_pos)
    then have "0 < owners s t" by (simp add: owners_def)
    then have "owners s t = Suc (owners s t - 1)" by simp
    with y True x have "exceeds (Suc (owners s t - 1)) x" by simp
    from exceeds_afterDeref[OF this] obtain y' where
      "afterDeref x = Some y'" "exceeds (owners s t - 1) y'" by blast
    with True show ?thesis by (simp add: callerOwns_iff cell' own')
  qed
qed





lemma consistent_Init: "consistent (mScriptContextInit s)"
  by (simp add: consistent_def mScriptContextInit_def)

subsection \<open>Allocation\<close>

lemma owners_cong:
  "weakrefs s' = weakrefs s \<Longrightarrow> rootScope s' = rootScope s \<Longrightarrow> owners s' a = owners s a"
  by (simp add: owners_def)




subsection \<open>\<^verbatim>\<open>mScriptContextMakeWeakref\<close> in full\<close>



subsection \<open>The root scope\<close>

lemma consistent_trace: "consistent (s\<lparr>trace := e\<rparr>) = consistent s"
  by (simp add: consistent_def covered_iff owners_def)

lemma callerOwns_trace: "callerOwns (s\<lparr>trace := e\<rparr>) a = callerOwns s a"
  by (simp add: callerOwns_iff owners_def)

lemma ran_remove_inj:
  assumes "inj_on t (dom t)" and "t k = Some old"
  shows "ran (t(k := None)) = ran t - {old}"
proof -
  have "t j \<noteq> Some old" if "j \<noteq> k" for j
  proof
    assume "t j = Some old"
    with assms(2) have "t j = t k" "j \<in> dom t" "k \<in> dom t" by auto
    with assms(1) have "j = k" by (auto dest: inj_onD)
    with that show False by simp
  qed
  note other = this
  show ?thesis
  proof (rule set_eqI)
    fix x
    show "x \<in> ran (t(k := None)) \<longleftrightarrow> x \<in> ran t - {old}"
    proof
      assume "x \<in> ran (t(k := None))"
      then obtain j where j: "j \<noteq> k" "t j = Some x" by (auto simp: ran_def split: if_splits)
      with other[of j] show "x \<in> ran t - {old}" by (auto simp: ran_def)
    next
      assume "x \<in> ran t - {old}"
      then obtain j where j: "t j = Some x" "x \<noteq> old" by (auto simp: ran_def)
      with assms(2) have "j \<noteq> k" by auto
      with j show "x \<in> ran (t(k := None))" by (auto simp: ran_def)
    qed
  qed
qed

lemma inj_on_remove: "inj_on t (dom t) \<Longrightarrow> inj_on (t(k := None)) (dom (t(k := None)))"
  by (auto simp: inj_on_def dom_def split: if_splits)


lemma releaseEntry_keeps:
  assumes c: "consistent s" and at: "rootScope s k = Some old" and z: "cell (heap s) old = Some z"
  shows "consistent (releaseEntry k old z s)"
    and "callerOwns s a \<Longrightarrow> callerOwns (releaseEntry k old z s) a"
proof -
  let ?s = "releaseEntry k old z s"
  from c have inj: "inj_on (rootScope s) (dom (rootScope s))" by (simp add: consistent_def)
  from z have lt: "old < length (heap s)" by (rule cell_Some_less)
  have cell': "cell (heap ?s) b = (if b = old then afterDeref z else cell (heap s) b)" for b
    using lt by (simp add: releaseEntry_def cell_list_update)
  have ran': "ran (rootScope ?s) = ran (rootScope s) - {old}"
    using ran_remove_inj[OF inj at] by (simp add: releaseEntry_def)
  from at have mem: "old \<in> ran (rootScope s)" by (auto simp: ran_def)
  have own': "owners ?s b = owners s b - (if b = old then 1 else 0)" for b
    using mem ran' by (auto simp: owners_def releaseEntry_def)
  from mem have opos: "owners s old = Suc (holders (weakrefs s) old)" by (simp add: owners_def)
  have w': "weakrefs ?s = weakrefs s" "nextWeakref ?s = nextWeakref s"
    by (simp_all add: releaseEntry_def)
  have cov: "covered ?s b" if b: "b \<in> ran (weakrefs s) \<or> b \<in> ran (rootScope s) - {old}" for b
  proof (cases "b = old")
    case False
    with b c have "covered s b" by (auto simp: consistent_def)
    with False show ?thesis by (simp add: covered_iff cell' own')
  next
    case True
    with b have "old \<in> ran (weakrefs s)" by simp
    then obtain h where "weakrefs s h = Some old" by (auto simp: ran_def)
    from holders_pos[of "weakrefs s" h old, OF this] obtain n where n: "holders (weakrefs s) old = Suc n"
      by (cases "holders (weakrefs s) old") auto
    from consistent_covers[OF c z] opos n have cv: "covers (Suc (Suc n)) z" by simp
    from covers_afterDeref_live[OF cv] obtain z' where z': "afterDeref z = Some z'" ..
    from cv have "covers (Suc (Suc n)) z" .
    from covers_afterDeref[OF this z'] have "covers (Suc n) z'" .
    with True z' opos n show ?thesis by (simp add: covered_iff cell' own')
  qed
  have pay: "\<exists>y h. cell (heap ?s) b = Some y \<and> payload y = U32 h"
    if "b \<in> ran (rootScope s) - {old}" for b
    using that c by (auto simp: consistent_def cell')
  from c have "weakrefs ?s (nextWeakref ?s) = None" by (simp add: consistent_def w')
  moreover note inj_on_remove[OF inj, of k]
  ultimately show "consistent ?s"
    unfolding consistent_def ran' w'
    using cov pay by (auto simp: releaseEntry_def)
  show "callerOwns ?s a" if o: "callerOwns s a"
  proof -
    from o obtain y where y: "cell (heap s) a = Some y" "exceeds (owners s a) y"
      by (auto simp: callerOwns_iff)
    show ?thesis
    proof (cases "a = old")
      case False
      with y show ?thesis by (simp add: callerOwns_iff cell' own')
    next
      case True
      with y z opos have "exceeds (Suc (holders (weakrefs s) old)) z" by simp
      from exceeds_afterDeref[OF this] obtain z' where
        "afterDeref z = Some z'" "exceeds (holders (weakrefs s) old) z'" by blast
      with True opos show ?thesis by (simp add: callerOwns_iff cell' own')
    qed
  qed
qed

lemma HashTableRemove_eq:
  assumes "rootScope s k = Some old" and "cell (heap s) old = Some z"
  shows "HashTableRemove k s = Some ((releaseEntry k old z s)\<lparr>trace := trace s @ [ValueDeref old]\<rparr>)"
  using assms by (simp add: HashTableRemove_def mScriptValueDeref_eq releaseEntry_def)




lemma HashTableRemove_keeps:
  assumes c: "consistent s"
  shows "\<exists>s'. HashTableRemove k s = Some s' \<and> consistent s'
            \<and> (\<forall>a. callerOwns s a \<longrightarrow> callerOwns s' a)"
proof (cases "rootScope s k")
  case None
  with c show ?thesis by (simp add: HashTableRemove_def)
next
  case (Some old)
  then have "old \<in> ran (rootScope s)" by (auto simp: ran_def)
  with consistent_live[OF c] obtain z where z: "cell (heap s) old = Some z" by blast
  note rk = releaseEntry_keeps[OF c Some z]
  from rk show ?thesis
    by (simp add: HashTableRemove_eq[OF Some z] consistent_trace callerOwns_trace)
qed

lemma holders_empty: "holders Map.empty a = 0"
  by (simp add: holders_def)

text \<open>Unfolded together when consistency is checked on a concrete state.\<close>

lemmas owner_defs = consistent_def covered_iff callerOwns_iff covers_def exceeds_def counted_def
  owners_def holders_insert holders_empty

section \<open>Weak references\<close>

text \<open>
  A handle that is absent stays absent until \<^verbatim>\<open>mScriptContextSetWeakref\<close> gives it out again,
  which takes the counter a whole turn of the 32-bit range.
\<close>

lemma runWeakrefOps_stays_absent:
  "runWeakrefOps xs s = Some s' \<Longrightarrow> weakrefs s h = None \<Longrightarrow>
     h \<notin> set (issuedHandles xs s) \<Longrightarrow> weakrefs s' h = None"
proof (induction xs arbitrary: s)
  case Nil
  then show ?case by simp
next
  case (Cons x xs)
  from Cons.prems(1) obtain s1 where
    a: "applyWeakrefOp x s = Some s1" and b: "runWeakrefOps xs s1 = Some s'"
    by (auto split: Option.bind_splits)
  from Cons.prems(3) have unf: "h \<notin> set
      ((case x of OpSetWeakref v \<Rightarrow> [nextWeakref s] | OpClearWeakref h \<Rightarrow> [])
       @ issuedHandles xs s1)"
    unfolding issuedHandles.simps a by simp
  then have rest: "h \<notin> set (issuedHandles xs s1)" by simp
  have "weakrefs s1 h = None"
  proof (cases x)
    case (OpSetWeakref v)
    with a obtain h' where e: "mScriptContextSetWeakref v s = Some (h', s1)" by auto
    from unf OpSetWeakref have "h \<noteq> nextWeakref s" by simp
    with mScriptContextSetWeakref_effect(1,2)[OF e] Cons.prems(2) show ?thesis by simp
  next
    case (OpClearWeakref k)
    with a have "TableRemove k s = Some s1" by (simp add: mScriptContextClearWeakref_def)
    from TableRemove_frame(4)[OF this] Cons.prems(2) show ?thesis by simp
  qed
  from Cons.IH[OF b this rest] show ?case .
qed




lemma applyWeakrefOp_card:
  assumes "applyWeakrefOp x s = Some s'" and "finite (dom (weakrefs s))"
  shows "finite (dom (weakrefs s')) \<and> card (dom (weakrefs s')) \<le> Suc (card (dom (weakrefs s)))"
proof (cases x)
  case (OpSetWeakref v)
  with assms(1) obtain h where e: "mScriptContextSetWeakref v s = Some (h, s')" by auto
  from mScriptContextSetWeakref_effect(2)[OF e]
  have "dom (weakrefs s') = insert h (dom (weakrefs s))" by simp
  with assms(2) show ?thesis by (simp add: card_insert_if)
next
  case (OpClearWeakref k)
  with assms(1) have "TableRemove k s = Some s'" by (simp add: mScriptContextClearWeakref_def)
  from TableRemove_frame(4)[OF this]
  have "dom (weakrefs s') = dom (weakrefs s) - {k}" by simp
  with assms(2) show ?thesis
    by (simp add: le_SucI card_Diff1_le)
qed

lemma runWeakrefOps_card:
  "runWeakrefOps xs s = Some s' \<Longrightarrow> finite (dom (weakrefs s)) \<Longrightarrow>
     finite (dom (weakrefs s')) \<and> card (dom (weakrefs s')) \<le> card (dom (weakrefs s)) + length xs"
proof (induction xs arbitrary: s)
  case Nil
  then show ?case by simp
next
  case (Cons x xs)
  from Cons.prems(1) obtain s1 where
    a: "applyWeakrefOp x s = Some s1" and b: "runWeakrefOps xs s1 = Some s'"
    by (auto split: Option.bind_splits)
  from applyWeakrefOp_card[OF a Cons.prems(2)]
  have f1: "finite (dom (weakrefs s1))" and c1: "card (dom (weakrefs s1)) \<le> Suc (card (dom (weakrefs s)))"
    by simp_all
  from Cons.IH[OF b f1] c1 show ?case by simp
qed

text \<open>
  Termination of the handle search: from an initialised context, a run of fewer than
  \<open>2^32 - 1\<close> table operations leaves a free handle besides the counter, so the next
  \<^verbatim>\<open>mScriptContextSetWeakref\<close> on a live value returns.
\<close>

lemma mScriptContextSetWeakref_terminates:
  assumes run: "runWeakrefOps xs (mScriptContextInit s0) = Some s"
      and short: "Suc (length xs) < 2 ^ 32"
      and live: "cell (heap s) v \<noteq> None"
  shows "\<exists>s'. mScriptContextSetWeakref v s = Some (nextWeakref s, s')"
proof -
  have init: "weakrefs (mScriptContextInit s0) (nextWeakref (mScriptContextInit s0)) = None"
    "finite (dom (weakrefs (mScriptContextInit s0)))" "card (dom (weakrefs (mScriptContextInit s0))) = 0"
    by (simp_all add: mScriptContextInit_def)
  from runWeakrefOps_counter_free[OF run init(1)]
  have free: "weakrefs s (nextWeakref s) = None" .
  from runWeakrefOps_card[OF run init(2)] init(3)
  have fin: "finite (dom (weakrefs s))" and c: "card (dom (weakrefs s)) \<le> length xs" by simp_all
  let ?D = "insert (nextWeakref s) (dom (weakrefs s))"
  from fin c have "card ?D \<le> Suc (length xs)" by (simp add: card_insert_if)
  with short have "card ?D < card (UNIV :: u32 set)" by (simp add: card_word)
  then have "?D \<noteq> UNIV" by auto
  then obtain k where "k \<notin> ?D" by blast
  then have "weakrefs s k = None" "k \<noteq> nextWeakref s" by auto
  from mScriptContextSetWeakref_returns[OF live free this] show ?thesis .
qed

text \<open>
  C2. From an initialised context, after any run of \<^verbatim>\<open>mScriptContextSetWeakref\<close> and
  \<^verbatim>\<open>mScriptContextClearWeakref\<close> calls, the counter \<open>nextWeakref\<close> is a handle no live entry
  has. So a further \<^verbatim>\<open>mScriptContextSetWeakref\<close> inserts at an unoccupied handle and returns it,
  every other entry of the table stays as it was, and the counter is again unoccupied
  afterwards: no two live entries share a handle.
\<close>

theorem setWeakref_handle_unoccupied:
  assumes run: "runWeakrefOps xs (mScriptContextInit s0) = Some s"
      and set: "mScriptContextSetWeakref v s = Some (h, s')"
  shows "h = nextWeakref s \<and> weakrefs s h = None
       \<and> weakrefs s' = (weakrefs s)(h \<mapsto> v)
       \<and> weakrefs s' (nextWeakref s') = None"
proof -
  have "weakrefs (mScriptContextInit s0) (nextWeakref (mScriptContextInit s0)) = None"
    by (simp add: mScriptContextInit_def)
  from runWeakrefOps_counter_free[OF run this]
  have free: "weakrefs s (nextWeakref s) = None" .
  note ef = mScriptContextSetWeakref_effect[OF set]
  from free ef(1,2,3) show ?thesis by simp
qed

theorem setWeakref_handle_unoccupied_witness:
  "runWeakrefOps [OpSetWeakref 0, OpSetWeakref 0, OpClearWeakref 0] (mScriptContextInit ex0) = Some ex4
   \<and> mScriptContextSetWeakref 0 ex4 = Some (2, ex5)
   \<and> 2 = nextWeakref ex4 \<and> weakrefs ex4 2 = None
   \<and> weakrefs ex5 = (weakrefs ex4)(2 \<mapsto> 0)
   \<and> weakrefs ex5 (nextWeakref ex5) = None"
proof -
  have run: "runWeakrefOps [OpSetWeakref 0, OpSetWeakref 0, OpClearWeakref 0]
               (mScriptContextInit ex0) = Some ex4"
    by (simp add: ex_defs ex4_def mScriptContextInit_def heap_defs table_defs)
  have set: "mScriptContextSetWeakref 0 ex4 = Some (2, ex5)"
    by (simp add: ex_defs ex4_def ex5_def heap_defs table_defs)
  from setWeakref_handle_unoccupied[OF run set] run set show ?thesis by blast
qed

text \<open>
  C10. \<^verbatim>\<open>mScriptContextAccessWeakref\<close> is a pure read. Whenever it returns, the whole state is
  what it was (root scope, engines, table, pool, counter, every reference count in the heap)
  and the trace has no new event, so no call to \<^verbatim>\<open>mScriptValueRef\<close> is made. It returns on
  every live Value: a Value whose type is not the descriptor \<^verbatim>\<open>mSCRIPT_TYPE_MS_WEAKREF\<close> itself
  (the code compares the pointers) is given back as it is, and for a weak-reference Value the
  result is the pointer the table holds for its handle, or \<^verbatim>\<open>NULL\<close>.
\<close>

theorem accessWeakref_pure_read:
  "(\<forall>r s'. mScriptContextAccessWeakref v s = Some (r, s') \<longrightarrow>
        s' = s \<and> heap s' = heap s \<and> trace s' = trace s)
   \<and> (\<forall>x. cell (heap s) v = Some x
          \<and> descriptor (type x) \<noteq> descriptor mSCRIPT_TYPE_MS_WEAKREF \<longrightarrow>
        mScriptContextAccessWeakref v s = Some (Some v, s))
   \<and> (\<forall>x h. cell (heap s) v = Some x
          \<and> descriptor (type x) = descriptor mSCRIPT_TYPE_MS_WEAKREF \<and> payload x = U32 h \<longrightarrow>
        mScriptContextAccessWeakref v s = Some (weakrefs s h, s))"
  by (auto simp: mScriptContextAccessWeakref_def TableLookup_def
      split: Option.bind_splits if_splits)

theorem accessWeakref_pure_read_witness:
  "cell (heap exV) 1 = Some (weakValue 0) \<and> weakrefs exV 0 = Some 0
   \<and> mScriptContextAccessWeakref 1 exV = Some (Some 0, exV)
   \<and> cell (heap exV) 2 = Some lookalikeValue
   \<and> base (type lookalikeValue) = mSCRIPT_TYPE_WEAKREF
   \<and> descriptor (type lookalikeValue) \<noteq> descriptor mSCRIPT_TYPE_MS_WEAKREF
   \<and> mScriptContextAccessWeakref 2 exV = Some (Some 2, exV)
   \<and> mScriptContextAccessWeakref 0 exV = Some (Some 0, exV)"
proof -
  have c1: "cell (heap exV) 1 = Some (weakValue 0)"
    "descriptor (type (weakValue 0)) = descriptor mSCRIPT_TYPE_MS_WEAKREF"
    "payload (weakValue 0) = U32 0" "weakrefs exV 0 = Some 0"
    by (simp_all add: exV_def ex1_def ex_defs cell_def)
  have c2: "cell (heap exV) 2 = Some lookalikeValue"
    "descriptor (type lookalikeValue) \<noteq> descriptor mSCRIPT_TYPE_MS_WEAKREF"
    "base (type lookalikeValue) = mSCRIPT_TYPE_WEAKREF"
    by (simp_all add: exV_def ex1_def ex_defs cell_def lookalikeValue_def
        mSCRIPT_TYPE_MS_WEAKREF_def)
  have c0: "cell (heap exV) 0 = Some someValue"
    "descriptor (type someValue) \<noteq> descriptor mSCRIPT_TYPE_MS_WEAKREF"
    by (simp_all add: exV_def ex1_def ex_defs cell_def mSCRIPT_TYPE_MS_WEAKREF_def)
  from accessWeakref_pure_read[of 1 exV] c1
  have a1: "mScriptContextAccessWeakref 1 exV = Some (Some 0, exV)" by metis
  from accessWeakref_pure_read[of 2 exV] c2
  have a2: "mScriptContextAccessWeakref 2 exV = Some (Some 2, exV)" by blast
  from accessWeakref_pure_read[of 0 exV] c0
  have a0: "mScriptContextAccessWeakref 0 exV = Some (Some 0, exV)" by blast
  from c1 c2 a1 a2 a0 show ?thesis by simp
qed

section \<open>Globals and their propagation to the engines\<close>

lemmas engine_defs = engineA_def engineB_def engineC_def exE_def exG_def

lemma HashTableEnumerate_contextRemoveGlobal:
  "HashTableEnumerate es contextRemoveGlobal key s =
     (key, s\<lparr>trace := trace s @ map (\<lambda>(k, e). EngineSetGlobal (self e) key None) es\<rparr>)"
  by (induction es arbitrary: s) (auto simp: contextRemoveGlobal_def emit_def)

lemma HashTableEnumerate_contextAddGlobal:
  "HashTableEnumerate es contextAddGlobal pair s =
     (pair, s\<lparr>trace := trace s @
        map (\<lambda>(k, e). EngineSetGlobal (self e) (pair_key pair) (Some (pair_value pair))) es\<rparr>)"
  by (induction es arbitrary: s) (auto simp: contextAddGlobal_def emit_def)

lemma HashTableRemove_frame:
  assumes "HashTableRemove k s = Some s'"
  shows "rootScope s' = (rootScope s)(k := None)" "engines s' = engines s"
    "refPool s' = refPool s" "weakrefs s' = weakrefs s" "nextWeakref s' = nextWeakref s"
    "trace s' = trace s @ (case rootScope s k of None \<Rightarrow> [] | Some old \<Rightarrow> [ValueDeref old])"
    "length (heap s') = length (heap s)"
  using assms
  by (auto simp: HashTableRemove_def mScriptValueDeref_frame split: option.splits Option.bind_splits)

lemma HashTableInsert_frame:
  assumes "HashTableInsert k v s = Some s'"
  shows "rootScope s' = (rootScope s)(k \<mapsto> v)" "engines s' = engines s"
    "refPool s' = refPool s" "weakrefs s' = weakrefs s" "nextWeakref s' = nextWeakref s"
    "trace s' = trace s @ (case rootScope s k of None \<Rightarrow> []
                           | Some old \<Rightarrow> if old = v then [] else [ValueDeref old])"
    "length (heap s') = length (heap s)"
  using assms
  by (auto simp: HashTableInsert_def mScriptValueDeref_frame map_upd_triv
      split: option.splits Option.bind_splits if_splits)


text \<open>
  The counter stays unoccupied under every operation of the file that changes the table, so
  the invariant holds in every state reached from an initialised context.
\<close>

lemma mScriptContextInit_counter_free:
  "weakrefs (mScriptContextInit s) (nextWeakref (mScriptContextInit s)) = None"
  by (simp add: mScriptContextInit_def)

lemma mScriptContextClearWeakref_counter_free:
  "mScriptContextClearWeakref h s = Some s' \<Longrightarrow> weakrefs s (nextWeakref s) = None \<Longrightarrow>
     weakrefs s' (nextWeakref s') = None"
  by (simp add: mScriptContextClearWeakref_def TableRemove_frame)

lemma mScriptContextMakeWeakref_counter_free:
  "mScriptContextMakeWeakref v s = Some (w, s') \<Longrightarrow> weakrefs s' (nextWeakref s') = None"
  by (rule mScriptContextMakeWeakref_effect)

lemma mScriptContextRemoveGlobal_counter_free:
  assumes "mScriptContextRemoveGlobal key s = Some s'" and "weakrefs s (nextWeakref s) = None"
  shows "weakrefs s' (nextWeakref s') = None"
proof (cases "rootScope s key")
  case None
  with assms show ?thesis by (simp add: mScriptContextRemoveGlobal_def HashTableLookup_def)
next
  case (Some oldValue)
  with assms(1) obtain h s2 where
    c: "mScriptContextClearWeakref h
          (s\<lparr>trace := trace s @ map (\<lambda>(k, e). EngineSetGlobal (self e) key None) (engines s)\<rparr>)
        = Some s2" and r: "HashTableRemove key s2 = Some s'"
    by (auto simp: mScriptContextRemoveGlobal_def HashTableLookup_def
        HashTableEnumerate_contextRemoveGlobal split: Option.bind_splits)
  from mScriptContextClearWeakref_counter_free[OF c] assms(2)
  have "weakrefs s2 (nextWeakref s2) = None" by simp
  with HashTableRemove_frame[OF r] show ?thesis by simp
qed

lemma mScriptContextSetGlobal_counter_free:
  assumes "mScriptContextSetGlobal key value s = Some s'"
  shows "weakrefs s' (nextWeakref s') = None"
proof -
  from assms obtain s1 hn s2 s4 s5 where
    e: "mScriptContextSetWeakref value s1 = Some (hn, s2)" and
    st: "store_u32 (length (heap s2)) hn
           (s2\<lparr>heap := heap s2 @ [Some \<lparr>type = mSCRIPT_TYPE_MS_WEAKREF, refs = 1,
                                        payload = Opaque None\<rparr>]\<rparr>) = Some s4" and
    i: "HashTableInsert key (length (heap s2)) s4 = Some s5" and
    s': "s' = snd (HashTableEnumerate (engines s5) contextAddGlobal
                  \<lparr>pair_key = key, pair_value = length (heap s2)\<rparr> s5)"
    by (auto simp: mScriptContextSetGlobal_def mScriptValueAlloc_def split: Option.bind_splits)
  from st have "weakrefs s4 = weakrefs s2" "nextWeakref s4 = nextWeakref s2"
    by (auto simp: store_u32_def split: option.splits)
  with mScriptContextSetWeakref_effect(3)[OF e] HashTableInsert_frame[OF i] s'
  show ?thesis by (simp add: HashTableEnumerate_contextAddGlobal)
qed


text \<open>What \<^verbatim>\<open>mScriptContextRemoveGlobal\<close> has done when it returns, on a key that is present.\<close>

lemma mScriptContextRemoveGlobal_effect:
  assumes present: "rootScope s key = Some oldValue"
      and ret: "mScriptContextRemoveGlobal key s = Some s'"
  shows "\<exists>ov h s1 s2.
       s1 = s\<lparr>trace := trace s @ map (\<lambda>(k, e). EngineSetGlobal (self e) key None) (engines s)\<rparr>
     \<and> cell (heap s) oldValue = Some ov \<and> payload ov = U32 h
     \<and> mScriptContextClearWeakref h s1 = Some s2
     \<and> HashTableRemove key s2 = Some s'
     \<and> rootScope s' = (rootScope s)(key := None)
     \<and> weakrefs s' = (weakrefs s)(h := None)
     \<and> engines s' = engines s
     \<and> trace s' = trace s
          @ map (\<lambda>(k, e). EngineSetGlobal (self e) key None) (engines s)
          @ (case weakrefs s h of None \<Rightarrow> [] | Some target \<Rightarrow> [ValueDeref target])
          @ [ValueDeref oldValue]"
proof -
  define s1 where
    "s1 = s\<lparr>trace := trace s @ map (\<lambda>(k, e). EngineSetGlobal (self e) key None) (engines s)\<rparr>"
  from present ret obtain ov h s2 where
    ov: "cell (heap s) oldValue = Some ov" and h: "payload ov = U32 h" and
    c: "mScriptContextClearWeakref h s1 = Some s2" and r: "HashTableRemove key s2 = Some s'"
    by (auto simp: mScriptContextRemoveGlobal_def HashTableLookup_def s1_def
        HashTableEnumerate_contextRemoveGlobal
        split: Option.bind_splits elim: u32_of.elims)
  from c have t: "TableRemove h s1 = Some s2" by (simp add: mScriptContextClearWeakref_def)
  note tf = TableRemove_frame[OF t] and rf = HashTableRemove_frame[OF r]
  have "rootScope s' = (rootScope s)(key := None)" using tf rf by (simp add: s1_def)
  moreover have "weakrefs s' = (weakrefs s)(h := None)" using tf rf by (simp add: s1_def)
  moreover have "engines s' = engines s" using tf rf by (simp add: s1_def)
  moreover have "trace s' = trace s
          @ map (\<lambda>(k, e). EngineSetGlobal (self e) key None) (engines s)
          @ (case weakrefs s h of None \<Rightarrow> [] | Some target \<Rightarrow> [ValueDeref target])
          @ [ValueDeref oldValue]"
    using tf rf present by (simp add: s1_def)
  ultimately show ?thesis using ov h c r s1_def by blast
qed


text \<open>
  \<^verbatim>\<open>mScriptContextRemoveGlobal\<close> returns in every consistent context and keeps it consistent.
\<close>

lemma mScriptContextRemoveGlobal_total:
  assumes c: "consistent s"
  shows "\<exists>s'. mScriptContextRemoveGlobal key s = Some s' \<and> consistent s'
            \<and> (\<forall>a. callerOwns s a \<longrightarrow> callerOwns s' a)"
proof (cases "rootScope s key")
  case None
  with c show ?thesis by (simp add: mScriptContextRemoveGlobal_def HashTableLookup_def)
next
  case (Some old)
  let ?s1 = "s\<lparr>trace := trace s @ map (\<lambda>(k, e). EngineSetGlobal (self e) key None) (engines s)\<rparr>"
  from c have c1: "consistent ?s1" by (simp add: consistent_trace)
  from Some have "old \<in> ran (rootScope s)" by (auto simp: ran_def)
  with c obtain ov h where ov: "cell (heap s) old = Some ov" "payload ov = U32 h"
    by (auto simp: consistent_def)
  from mScriptContextClearWeakref_returns[OF c1] obtain s2 where
    clr: "mScriptContextClearWeakref h ?s1 = Some s2" ..
  note c2 = consistent_ClearWeakref[OF c1 clr]
  from HashTableRemove_keeps[OF c2, of key] obtain s' where
    r: "HashTableRemove key s2 = Some s'" and c': "consistent s'" and
    o': "\<forall>a. callerOwns s2 a \<longrightarrow> callerOwns s' a" by blast
  have "callerOwns s' a" if "callerOwns s a" for a
  proof -
    from that have "callerOwns ?s1 a" by (simp add: callerOwns_trace)
    from callerOwns_ClearWeakref[OF clr this] o' show ?thesis by blast
  qed
  moreover from Some ov clr r have "mScriptContextRemoveGlobal key s = Some s'"
    by (simp add: mScriptContextRemoveGlobal_def HashTableLookup_def
        HashTableEnumerate_contextRemoveGlobal)
  ultimately show ?thesis using c' by blast
qed




text \<open>
  C4. In a consistent context, \<^verbatim>\<open>mScriptContextRemoveGlobal\<close> on a key the root scope holds
  returns. Every engine's \<^verbatim>\<open>setGlobal\<close> is called with the key and \<^verbatim>\<open>NULL\<close> first. In the state
  \<open>s1\<close> reached then, only the trace differs from the state of the call, so the table and the
  root scope are intact. After that the handle of the entry is cleared and the entry removed:
  in the trace the release of the table's value and of the entry's Value come after every
  notification, and the root scope no longer holds the key. The context is consistent again.
\<close>

theorem removeGlobal_notifies_then_clears:
  assumes c: "consistent s" and present: "rootScope s key = Some oldValue"
  shows "\<exists>s' ov h s1 s2.
       mScriptContextRemoveGlobal key s = Some s'
     \<and> s1 = s\<lparr>trace := trace s @ map (\<lambda>(k, e). EngineSetGlobal (self e) key None) (engines s)\<rparr>
     \<and> cell (heap s) oldValue = Some ov \<and> payload ov = U32 h
     \<and> mScriptContextClearWeakref h s1 = Some s2
     \<and> HashTableRemove key s2 = Some s'
     \<and> rootScope s' = (rootScope s)(key := None)
     \<and> weakrefs s' = (weakrefs s)(h := None)
     \<and> engines s' = engines s
     \<and> trace s' = trace s
          @ map (\<lambda>(k, e). EngineSetGlobal (self e) key None) (engines s)
          @ (case weakrefs s h of None \<Rightarrow> [] | Some target \<Rightarrow> [ValueDeref target])
          @ [ValueDeref oldValue]
     \<and> consistent s'"
proof -
  from mScriptContextRemoveGlobal_total[OF c] obtain s' where
    ret: "mScriptContextRemoveGlobal key s = Some s'" and c': "consistent s'" by blast
  from mScriptContextRemoveGlobal_effect[OF present ret] ret c' show ?thesis by blast
qed

theorem removeGlobal_notifies_then_clears_witness:
  "consistent exG \<and> rootScope exG ''x'' = Some 1
   \<and> mScriptContextRemoveGlobal ''x'' exG = Some exR
   \<and> rootScope exR ''x'' = None \<and> weakrefs exR 0 = None
   \<and> consistent exR
   \<and> trace exR = trace exG @ [EngineSetGlobal 10 ''x'' None, EngineSetGlobal 11 ''x'' None,
                       EngineSetGlobal 12 ''x'' None, ValueDeref 0, ValueDeref 1]"
proof -
  have c: "consistent exG"
    by (simp add: owner_defs engine_defs ex_defs heap_defs)
  have a: "rootScope exG ''x'' = Some 1" by (simp add: exG_def)
  have b: "mScriptContextRemoveGlobal ''x'' exG = Some exR"
    by (simp add: mScriptContextRemoveGlobal_def HashTableLookup_def HashTableRemove_def
        contextRemoveGlobal_def mSCRIPT_TYPE_MS_WEAKREF_def exR_def engine_defs ex_defs
        heap_defs table_defs)
  from removeGlobal_notifies_then_clears[OF c a] b have "consistent exR" by auto
  with a b c show ?thesis
    by (auto simp: exR_def engine_defs ex_defs)
qed

text \<open>
  C8. \<^verbatim>\<open>mScriptContextRemoveGlobal\<close> on a key the root scope does not hold returns the state
  it was given: engines, root scope, table, heap and trace are the same, so no engine was
  called and no reference released.
\<close>

theorem removeGlobal_absent_noop:
  assumes "rootScope s key = None"
  shows "mScriptContextRemoveGlobal key s = Some s"
  using assms by (simp add: mScriptContextRemoveGlobal_def HashTableLookup_def)

theorem removeGlobal_absent_noop_witness:
  "rootScope exG ''missing'' = None \<and> mScriptContextRemoveGlobal ''missing'' exG = Some exG"
proof -
  have a: "rootScope exG ''missing'' = None" by (simp add: exG_def)
  from removeGlobal_absent_noop[OF a] a show ?thesis by simp
qed

section \<open>The deferred-release pool: fill and drain\<close>

lemma mScriptContextFillPool_effect:
  assumes "mScriptContextFillPool v s = Some s'"
  shows "s' = s\<lparr>refPool := refPool s @ (if poolAccepts (heap s) v then [wrapperOf v] else [])\<rparr>"
  using assms
  by (auto simp: mScriptContextFillPool_def poolAccepts_def wrapperOf_def isScalar_def
      split: Option.bind_splits if_splits mScriptTypeBase.splits)

lemma fillPoolAll_effect:
  "fillPoolAll vs s = Some s' \<Longrightarrow>
     s' = s\<lparr>refPool := refPool s @ map wrapperOf (filter (poolAccepts (heap s)) vs)\<rparr>"
proof (induction vs arbitrary: s)
  case Nil
  then show ?case by simp
next
  case (Cons v vs)
  from Cons.prems obtain s1 where
    a: "mScriptContextFillPool v s = Some s1" and b: "fillPoolAll vs s1 = Some s'"
    by (auto split: Option.bind_splits)
  note e = mScriptContextFillPool_effect[OF a]
  from e have h: "heap s1 = heap s" by (cases "poolAccepts (heap s) v") simp_all
  from Cons.IH[OF b] have "s' = s1\<lparr>refPool := refPool s1 @ map wrapperOf (filter (poolAccepts (heap s)) vs)\<rparr>"
    by (simp add: h)
  also from e have "\<dots> = s\<lparr>refPool := refPool s @ map wrapperOf (filter (poolAccepts (heap s)) (v # vs))\<rparr>"
    by (cases "poolAccepts (heap s) v") simp_all
  finally show ?case .
qed

lemma poolTargets_Nil: "poolTargets [] = []"
  by (simp add: poolTargets_def)

lemma poolTargets_append: "poolTargets (xs @ ys) = poolTargets xs @ poolTargets ys"
  by (simp add: poolTargets_def map_filter_def)

lemma poolTargets_wrappers: "poolTargets (map wrapperOf ps) = ps"
  by (induction ps)
     (simp_all add: poolTargets_def mScriptValueUnwrap_def wrapperOf_def)

lemma poolTargets_Cons:
  "poolTargets (e # es) =
     (case mScriptValueUnwrap e of Some (Some p) \<Rightarrow> p # poolTargets es | _ \<Rightarrow> poolTargets es)"
  by (simp add: poolTargets_def split: option.splits)

lemma drainFrom_effect:
  "drainFrom i s = Some s' \<Longrightarrow>
     trace s' = trace s @ map ValueDeref (poolTargets (drop i (refPool s)))
     \<and> refPool s' = refPool s \<and> rootScope s' = rootScope s \<and> engines s' = engines s
     \<and> weakrefs s' = weakrefs s \<and> nextWeakref s' = nextWeakref s
     \<and> length (heap s') = length (heap s)"
proof (induction i s rule: drainFrom.induct)
  case (1 i s)
  show ?case
  proof (cases "i < length (refPool s)")
    case False
    with "1.prems" have "s' = s" by (subst (asm) drainFrom.simps) simp
    with False show ?thesis by (simp add: poolTargets_Nil)
  next
    case True
    with "1.prems" obtain tgt s1 where
      u: "mScriptValueUnwrap (refPool s ! i) = Some tgt" and
      d: "(case tgt of None \<Rightarrow> Some s | Some p \<Rightarrow> mScriptValueDeref p s) = Some s1" and
      r: "drainFrom (i + 1) s1 = Some s'"
      by (subst (asm) drainFrom.simps) (auto split: Option.bind_splits)
    note ih = "1.IH"[OF True u d r]
    have s1: "refPool s1 = refPool s" "rootScope s1 = rootScope s" "engines s1 = engines s"
      "weakrefs s1 = weakrefs s" "nextWeakref s1 = nextWeakref s"
      "length (heap s1) = length (heap s)"
      "trace s1 = trace s @ (case tgt of None \<Rightarrow> [] | Some p \<Rightarrow> [ValueDeref p])"
      using d by (auto split: option.splits simp: mScriptValueDeref_frame)
    from True have "drop i (refPool s) = refPool s ! i # drop (Suc i) (refPool s)"
      by (simp add: Cons_nth_drop_Suc)
    then have "poolTargets (drop i (refPool s)) =
        (case tgt of None \<Rightarrow> [] | Some p \<Rightarrow> [p]) @ poolTargets (drop (Suc i) (refPool s))"
      using u by (simp add: poolTargets_Cons split: option.splits)
    with ih s1 show ?thesis by (auto split: option.splits)
  qed
qed

lemma mScriptContextDrainPool_effect:
  assumes "mScriptContextDrainPool s = Some s'"
  shows "trace s' = trace s @ map ValueDeref (poolTargets (refPool s))" "refPool s' = []"
    "rootScope s' = rootScope s" "engines s' = engines s" "weakrefs s' = weakrefs s"
    "nextWeakref s' = nextWeakref s"
proof -
  from assms obtain s1 where d: "drainFrom 0 s = Some s1" and s': "s' = s1\<lparr>refPool := []\<rparr>"
    by (auto simp: mScriptContextDrainPool_def split: Option.bind_splits)
  from drainFrom_effect[OF d] s'
  show "trace s' = trace s @ map ValueDeref (poolTargets (refPool s))" "refPool s' = []"
    "rootScope s' = rootScope s" "engines s' = engines s" "weakrefs s' = weakrefs s"
    "nextWeakref s' = nextWeakref s"
    by simp_all
qed

text \<open>
  The drain returns when every entry can be unwrapped and the wrapped values are live and
  pairwise different (the caller's duty, as the spec's open question says).
\<close>

lemma drainFrom_returns:
  "\<forall>e \<in> set (drop i (refPool s)). mScriptValueUnwrap e \<noteq> None \<Longrightarrow>
   distinct (poolTargets (drop i (refPool s))) \<Longrightarrow>
   \<forall>p \<in> set (poolTargets (drop i (refPool s))). cell (heap s) p \<noteq> None \<Longrightarrow>
   \<exists>s'. drainFrom i s = Some s'"
proof (induction i s rule: drainFrom.induct)
  case (1 i s)
  show ?case
  proof (cases "i < length (refPool s)")
    case False
    then show ?thesis by (subst drainFrom.simps) simp
  next
    case True
    then have dr: "drop i (refPool s) = refPool s ! i # drop (Suc i) (refPool s)"
      by (simp add: Cons_nth_drop_Suc)
    with "1.prems"(1) obtain tgt where u: "mScriptValueUnwrap (refPool s ! i) = Some tgt"
      by auto
    from dr u have pt: "poolTargets (drop i (refPool s)) =
        (case tgt of None \<Rightarrow> [] | Some p \<Rightarrow> [p]) @ poolTargets (drop (Suc i) (refPool s))"
      by (simp add: poolTargets_Cons split: option.splits)
    have "\<exists>s1. (case tgt of None \<Rightarrow> Some s | Some p \<Rightarrow> mScriptValueDeref p s) = Some s1"
    proof (cases tgt)
      case None
      then show ?thesis by simp
    next
      case (Some p)
      with pt "1.prems"(3) have "cell (heap s) p \<noteq> None" by simp
      with Some show ?thesis by (auto simp: mScriptValueDeref_def split: option.splits)
    qed
    then obtain s1 where
      d: "(case tgt of None \<Rightarrow> Some s | Some p \<Rightarrow> mScriptValueDeref p s) = Some s1" ..
    have pool1: "refPool s1 = refPool s"
      using d by (auto split: option.splits simp: mScriptValueDeref_frame)
    have keep: "cell (heap s1) q = cell (heap s) q" if "q \<in> set (poolTargets (drop (Suc i) (refPool s)))" for q
    proof (cases tgt)
      case None
      with d show ?thesis by simp
    next
      case (Some p)
      with pt "1.prems"(2) that have "q \<noteq> p" by auto
      with Some d show ?thesis by (simp add: mScriptValueDeref_other)
    qed
    have "\<exists>s'. drainFrom (i + 1) s1 = Some s'"
    proof (rule "1.IH"[OF True u d])
      show "\<forall>e\<in>set (drop (i + 1) (refPool s1)). mScriptValueUnwrap e \<noteq> None"
        using "1.prems"(1) dr pool1 by simp
      show "distinct (poolTargets (drop (i + 1) (refPool s1)))"
        using "1.prems"(2) pt pool1 by simp
      show "\<forall>p\<in>set (poolTargets (drop (i + 1) (refPool s1))). cell (heap s1) p \<noteq> None"
        using "1.prems"(3) pt pool1 keep by simp
    qed
    then obtain s' where "drainFrom (i + 1) s1 = Some s'" ..
    with True u d show ?thesis by (subst drainFrom.simps) simp
  qed
qed

lemma derefCount_map: "derefCount (map ValueDeref ps) p = count_list ps p"
  by (induction ps) (simp_all add: derefCount_def)

lemmas pool_defs = exP0_def exP1_def exP2_def wrapperOf_def mScriptContextFillPool_def
  mScriptContextDrainPool_def mScriptValueUnwrap_def drainFrom.simps mSCRIPT_TYPE_MS_WRAPPER_def

text \<open>A run of fills returns when every value given is live.\<close>

lemma fillPoolAll_returns:
  "\<forall>v \<in> set vs. cell (heap s) v \<noteq> None \<Longrightarrow> \<exists>s1. fillPoolAll vs s = Some s1"
proof (induction vs arbitrary: s)
  case Nil
  then show ?case by simp
next
  case (Cons v vs)
  from Cons.prems obtain x where x: "cell (heap s) v = Some x" by auto
  then have "\<exists>s1. mScriptContextFillPool v s = Some s1"
    by (cases "base (type x)") (simp_all add: mScriptContextFillPool_def)
  then obtain s1 where f: "mScriptContextFillPool v s = Some s1" ..
  from mScriptContextFillPool_effect[OF f] have "heap s1 = heap s"
    by (cases "poolAccepts (heap s) v") simp_all
  with Cons.prems have "\<forall>v \<in> set vs. cell (heap s1) v \<noteq> None" by simp
  from Cons.IH[OF this] f show ?case by simp
qed

lemma count_list_distinct: "distinct ps \<Longrightarrow> count_list ps p = (if p \<in> set ps then 1 else 0)"
  by (induction ps) auto

text \<open>
  C5, for values that are live and accepted at most once. A run of
  \<^verbatim>\<open>mScriptContextFillPool\<close> calls followed by one \<^verbatim>\<open>mScriptContextDrainPool\<close>, on a pool whose
  entries wrap live values, no value being wrapped twice or given again: both return. The fills
  append one wrapper entry for each value that is neither scalar nor in the sentinel state, and
  nothing for the others; they leave the heap (so every reference count) and the trace (so no
  \<^verbatim>\<open>mScriptValueRef\<close>) as they were. The drain calls \<^verbatim>\<open>mScriptValueDeref\<close> exactly once on each
  value the pool wraps, in pool order, and on nothing else. The pool is empty afterwards.
\<close>

theorem pool_fill_then_drain:
  assumes live: "\<forall>v \<in> set vs. cell (heap s) v \<noteq> None"
      and pool: "\<forall>e \<in> set (refPool s). mScriptValueUnwrap e \<noteq> None"
      and held: "\<forall>p \<in> set (poolTargets (refPool s)). cell (heap s) p \<noteq> None"
      and once: "distinct (poolTargets (refPool s) @ filter (poolAccepts (heap s)) vs)"
  shows "\<exists>s1 s2. fillPoolAll vs s = Some s1 \<and> mScriptContextDrainPool s1 = Some s2
       \<and> refPool s1 = refPool s @ map wrapperOf (filter (poolAccepts (heap s)) vs)
       \<and> heap s1 = heap s \<and> trace s1 = trace s
       \<and> trace s2 = trace s1 @ map ValueDeref
            (poolTargets (refPool s) @ filter (poolAccepts (heap s)) vs)
       \<and> (\<forall>p. derefCount (drop (length (trace s1)) (trace s2)) p =
              (if p \<in> set (poolTargets (refPool s)) \<or> (p \<in> set vs \<and> poolAccepts (heap s) p)
               then 1 else 0))
       \<and> refPool s2 = []"
proof -
  let ?acc = "filter (poolAccepts (heap s)) vs"
  from fillPoolAll_returns[OF live] obtain s1 where fill: "fillPoolAll vs s = Some s1" ..
  note f = fillPoolAll_effect[OF fill]
  from f have pool1: "refPool s1 = refPool s @ map wrapperOf ?acc"
    and h1: "heap s1 = heap s" and t1: "trace s1 = trace s" by simp_all
  have tg: "poolTargets (refPool s1) = poolTargets (refPool s) @ ?acc"
    by (simp add: pool1 poolTargets_append poolTargets_wrappers)
  have u1: "\<forall>e \<in> set (drop 0 (refPool s1)). mScriptValueUnwrap e \<noteq> None"
    using pool by (auto simp: pool1 mScriptValueUnwrap_def wrapperOf_def)
  have d1: "distinct (poolTargets (drop 0 (refPool s1)))" using once by (simp add: tg)
  have l1: "\<forall>p \<in> set (poolTargets (drop 0 (refPool s1))). cell (heap s1) p \<noteq> None"
    using held live by (auto simp: tg h1)
  from drainFrom_returns[OF u1 d1 l1] obtain sd where "drainFrom 0 s1 = Some sd" ..
  then have drain: "mScriptContextDrainPool s1 = Some (sd\<lparr>refPool := []\<rparr>)"
    by (simp add: mScriptContextDrainPool_def)
  let ?s2 = "sd\<lparr>refPool := []\<rparr>"
  note d = mScriptContextDrainPool_effect[OF drain]
  from d(1) have t2: "trace ?s2 = trace s1 @ map ValueDeref (poolTargets (refPool s) @ ?acc)"
    by (simp only: tg)
  then have "drop (length (trace s1)) (trace ?s2) =
      map ValueDeref (poolTargets (refPool s) @ ?acc)" by simp
  then have "derefCount (drop (length (trace s1)) (trace ?s2)) p =
      count_list (poolTargets (refPool s) @ ?acc) p" for p
    by (simp only: derefCount_map)
  with once have cnt: "derefCount (drop (length (trace s1)) (trace ?s2)) p =
      (if p \<in> set (poolTargets (refPool s)) \<or> (p \<in> set vs \<and> poolAccepts (heap s) p)
       then 1 else 0)" for p
    by (simp only: count_list_distinct) auto
  from fill drain pool1 h1 t1 t2 cnt d(2) show ?thesis by blast
qed

theorem pool_fill_then_drain_witness:
  "fillPoolAll [0, 1, 2, 3] exP0 = Some exP1
   \<and> mScriptContextDrainPool exP1 = Some exP2
   \<and> filter (poolAccepts (heap exP0)) [0, 1, 2, 3] = [0, 3]
   \<and> refPool exP0 = []
   \<and> refPool exP1 = [wrapperOf 0, wrapperOf 3]
   \<and> heap exP1 = heap exP0 \<and> trace exP1 = trace exP0
   \<and> trace exP2 = [ValueDeref 0, ValueDeref 3]
   \<and> derefCount (trace exP2) 0 = 1 \<and> derefCount (trace exP2) 3 = 1
   \<and> derefCount (trace exP2) 1 = 0 \<and> derefCount (trace exP2) 2 = 0
   \<and> refPool exP2 = []"
proof -
  have fill: "fillPoolAll [0, 1, 2, 3] exP0 = Some exP1"
    by (simp add: pool_defs ex_defs heap_defs)
  have drain: "mScriptContextDrainPool exP1 = Some exP2"
    by (simp add: pool_defs ex_defs heap_defs)
  have acc: "filter (poolAccepts (heap exP0)) [0, 1, 2, 3] = [0, 3]"
    by (simp add: poolAccepts_def pool_defs ex_defs heap_defs)
  have t1: "trace exP1 = []" "refPool exP0 = []"
    by (simp_all add: pool_defs ex_defs)
  have live: "\<forall>v \<in> set [0, 1, 2, 3]. cell (heap exP0) v \<noteq> None"
    by (simp add: pool_defs ex_defs cell_def)
  have pool: "\<forall>e \<in> set (refPool exP0). mScriptValueUnwrap e \<noteq> None"
    by (simp add: t1)
  have held: "\<forall>p \<in> set (poolTargets (refPool exP0)). cell (heap exP0) p \<noteq> None"
    by (simp add: t1 poolTargets_Nil)
  have once: "distinct (poolTargets (refPool exP0) @ filter (poolAccepts (heap exP0)) [0, 1, 2, 3])"
    by (simp add: t1 acc poolTargets_Nil)
  from pool_fill_then_drain[OF live pool held once] fill drain
  have "\<forall>p. derefCount (drop (length (trace exP1)) (trace exP2)) p =
              (if p \<in> set (poolTargets (refPool exP0))
                  \<or> (p \<in> set [0, 1, 2, 3] \<and> poolAccepts (heap exP0) p)
               then 1 else 0)"
    by auto
  then have cnt: "derefCount (trace exP2) p =
      (if p \<in> set [0, 1, 2, 3] \<and> poolAccepts (heap exP0) p then 1 else 0)" for p
    unfolding t1 by (simp add: poolTargets_Nil)
  have pa: "poolAccepts (heap exP0) 0" "poolAccepts (heap exP0) 3"
    "\<not> poolAccepts (heap exP0) 1" "\<not> poolAccepts (heap exP0) 2"
    by (simp_all add: poolAccepts_def pool_defs ex_defs heap_defs)
  from fill drain acc cnt[of 0] cnt[of 1] cnt[of 2] cnt[of 3] pa show ?thesis
    by (simp add: pool_defs ex_defs)
qed

text \<open>
  C5 for a value accepted twice. Value \<open>3\<close>, with two references, is accepted by each of two
  fills and dereferenced twice by the drain. Value \<open>0\<close>, with one reference, is destroyed by the
  first release of the drain, and the second is applied to a destroyed value: the drain has
  no result.
\<close>

theorem pool_filled_twice:
  "poolAccepts (heap exP0) 3
   \<and> fillPoolAll [3, 3] exP0 = Some exD1
   \<and> refPool exD1 = [wrapperOf 3, wrapperOf 3]
   \<and> mScriptContextDrainPool exD1 = Some exD2
   \<and> trace exD2 = [ValueDeref 3, ValueDeref 3]
   \<and> derefCount (trace exD2) 3 = 2
   \<and> fillPoolAll [0, 0] exP0 = Some (exP0\<lparr>refPool := [wrapperOf 0, wrapperOf 0]\<rparr>)
   \<and> mScriptContextDrainPool (exP0\<lparr>refPool := [wrapperOf 0, wrapperOf 0]\<rparr>) = None"
  by (simp add: poolAccepts_def derefCount_def exD1_def exD2_def pool_defs ex_defs heap_defs)

section \<open>The other operations and the reference discipline\<close>

text \<open>
  The operations that leave table, root scope and heap alone keep the context consistent, and
  so do the two primitives when the caller takes a reference, or releases one it owns.
\<close>

lemma consistent_refPool: "consistent (s\<lparr>refPool := r\<rparr>) = consistent s"
  by (simp add: consistent_def covered_iff owners_def)

lemma consistent_FillPool:
  assumes "consistent s" and "mScriptContextFillPool v s = Some s'"
  shows "consistent s'"
proof -
  from mScriptContextFillPool_effect[OF assms(2)] assms(1) show ?thesis
    by (simp only: consistent_refPool)
qed

lemma consistent_RegisterEngine:
  "consistent s \<Longrightarrow> consistent (snd (mScriptContextRegisterEngine e s))"
  by (auto simp: mScriptContextRegisterEngine_def HashTableInsert_engines_def
      engineContextDestroy_def emit_def Let_def consistent_def covered_iff owners_def
      split: option.splits)

lemma consistent_LoadVF:
  "consistent s \<Longrightarrow> mScriptContextLoadVF nm vf s = (r, s') \<Longrightarrow> consistent s'"
proof -
  have find: "heap t = heap s \<and> weakrefs t = weakrefs s \<and> rootScope t = rootScope s
        \<and> nextWeakref t = nextWeakref s"
    if "HashTableEnumerate es contextFindForFile info s0 = (info', t)"
       "heap s0 = heap s \<and> weakrefs s0 = weakrefs s \<and> rootScope s0 = rootScope s
        \<and> nextWeakref s0 = nextWeakref s"
    for es info info' s0 t
    using that
    by (induction es arbitrary: info s0)
       (auto simp: contextFindForFile_def emit_def Let_def split: prod.splits if_splits option.splits)
  assume c: "consistent s" and l: "mScriptContextLoadVF nm vf s = (r, s')"
  obtain info' t where e: "HashTableEnumerate (engines s) contextFindForFile
      \<lparr>info_name = nm, info_vf = vf, info_context = None\<rparr> s = (info', t)"
    by (cases "HashTableEnumerate (engines s) contextFindForFile
      \<lparr>info_name = nm, info_vf = vf, info_context = None\<rparr> s") auto
  from find[OF e] have "heap t = heap s \<and> weakrefs t = weakrefs s \<and> rootScope t = rootScope s
        \<and> nextWeakref t = nextWeakref s" by simp
  with l e have "heap s' = heap s \<and> weakrefs s' = weakrefs s \<and> rootScope s' = rootScope s
        \<and> nextWeakref s' = nextWeakref s"
    by (auto simp: mScriptContextLoadVF_def emit_def Let_def split: option.splits prod.splits)
  with c show ?thesis by (simp add: consistent_def covered_iff owners_def)
qed

lemma consistent_Ref:
  assumes c: "consistent s" and r: "mScriptValueRef p s = Some s'"
  shows "consistent s'"
proof -
  from r obtain x where x: "cell (heap s) p = Some x" and
    s': "s' = s\<lparr>heap := (heap s)[p := Some (afterRef x)], trace := trace s @ [ValueRef p]\<rparr>"
    by (auto simp: mScriptValueRef_eq split: option.splits)
  from x have lt: "p < length (heap s)" by (rule cell_Some_less)
  have cell': "cell (heap s') b = (if b = p then Some (afterRef x) else cell (heap s) b)" for b
    using lt by (simp add: s' cell_list_update)
  have own': "owners s' b = owners s b" for b by (simp add: owners_def s')
  have cov: "covered s' b" if "covered s b" for b
    using that x covers_afterRef_same[of "owners s p" x]
    by (auto simp: covered_iff cell' own')
  have pay: "\<exists>y h. cell (heap s') b = Some y \<and> payload y = U32 h"
    if "\<exists>y h. cell (heap s) b = Some y \<and> payload y = U32 h" for b
    using that x by (auto simp: cell' afterRef_def)
  from c have "weakrefs s' (nextWeakref s') = None"
    "\<forall>a \<in> ran (weakrefs s'). covered s' a"
    "\<forall>a \<in> ran (rootScope s'). covered s' a \<and>
        (\<exists>y h. cell (heap s') a = Some y \<and> payload y = U32 h)"
    "inj_on (rootScope s') (dom (rootScope s'))"
    using cov pay by (simp_all add: consistent_def s')
  then show "consistent s'" unfolding consistent_def by blast
qed

lemma consistent_Deref:
  assumes c: "consistent s" and o: "callerOwns s p"
  shows "\<exists>s'. mScriptValueDeref p s = Some s' \<and> consistent s'
            \<and> (\<forall>q. q \<noteq> p \<and> callerOwns s q \<longrightarrow> callerOwns s' q)"
proof -
  from o obtain x where x: "cell (heap s) p = Some x" and ex: "exceeds (owners s p) x"
    by (auto simp: callerOwns_iff)
  let ?s' = "s\<lparr>heap := (heap s)[p := afterDeref x], trace := trace s @ [ValueDeref p]\<rparr>"
  from x have ret: "mScriptValueDeref p s = Some ?s'" by (simp add: mScriptValueDeref_eq)
  from x have lt: "p < length (heap s)" by (rule cell_Some_less)
  have cell': "cell ((heap s)[p := afterDeref x]) b =
      (if b = p then afterDeref x else cell (heap s) b)" for b
    using lt by (simp add: cell_list_update)
  have own': "owners ?s' b = owners s b" for b by (simp add: owners_def)
  have cov: "covered ?s' b" if b: "covered s b" "b \<in> ran (weakrefs s) \<or> b \<in> ran (rootScope s)" for b
  proof (cases "b = p")
    case False
    with b show ?thesis by (simp add: covered_iff cell' own')
  next
    case True
    have "owners s p \<noteq> 0"
    proof
      assume z: "owners s p = 0"
      from b(2) True have "p \<in> ran (weakrefs s) \<or> p \<in> ran (rootScope s)" by simp
      then show False
      proof
        assume "p \<in> ran (weakrefs s)"
        then obtain h where "weakrefs s h = Some p" by (auto simp: ran_def)
        from holders_pos[of "weakrefs s" h p, OF this] z show False by (simp add: owners_def)
      next
        assume "p \<in> ran (rootScope s)"
        with z show False by (simp add: owners_def)
      qed
    qed
    then obtain n where n: "owners s p = Suc n" by (cases "owners s p") auto
    from ex n have "exceeds (Suc n) x" by simp
    from exceeds_afterDeref_own[OF this] n True show ?thesis
      by (auto simp: covered_iff cell' own')
  qed
  have pay: "\<exists>y h. cell (heap ?s') b = Some y \<and> payload y = U32 h"
    if b: "covered ?s' b" "\<exists>y h. cell (heap s) b = Some y \<and> payload y = U32 h" for b
  proof (cases "b = p")
    case False
    with b show ?thesis by (simp add: cell')
  next
    case True
    with b(1) obtain y' where y': "afterDeref x = Some y'" by (auto simp: covered_iff cell')
    from afterDeref_shape[OF y'] b(2) x True y' lt show ?thesis
      by (auto simp: cell_list_update sameShape_def)
  qed
  from c have parts: "weakrefs ?s' (nextWeakref ?s') = None"
    "\<forall>a \<in> ran (weakrefs ?s'). covered ?s' a"
    "\<forall>a \<in> ran (rootScope ?s'). covered ?s' a"
    "inj_on (rootScope ?s') (dom (rootScope ?s'))"
    using cov by (simp_all add: consistent_def)
  from c parts(3) have "\<forall>a \<in> ran (rootScope ?s').
        (\<exists>y h. cell (heap ?s') a = Some y \<and> payload y = U32 h)"
    using pay by (simp add: consistent_def)
  with parts have c': "consistent ?s'" unfolding consistent_def by blast
  have "callerOwns ?s' q" if "q \<noteq> p" "callerOwns s q" for q
    using that by (simp add: callerOwns_iff cell' own')
  with ret c' show ?thesis by blast
qed

text \<open>
  The drain releases the references of the callers that filled the pool: it returns and keeps
  the context consistent when each of these callers owns the value it gave.
\<close>

lemma consistent_drainFrom:
  "consistent s \<Longrightarrow>
   \<forall>e \<in> set (drop i (refPool s)). mScriptValueUnwrap e \<noteq> None \<Longrightarrow>
   distinct (poolTargets (drop i (refPool s))) \<Longrightarrow>
   \<forall>p \<in> set (poolTargets (drop i (refPool s))). callerOwns s p \<Longrightarrow>
   \<exists>s'. drainFrom i s = Some s' \<and> consistent s'"
proof (induction i s rule: drainFrom.induct)
  case (1 i s)
  show ?case
  proof (cases "i < length (refPool s)")
    case False
    with "1.prems"(1) show ?thesis by (subst drainFrom.simps) simp
  next
    case True
    then have dr: "drop i (refPool s) = refPool s ! i # drop (Suc i) (refPool s)"
      by (simp add: Cons_nth_drop_Suc)
    with "1.prems"(2) obtain tgt where u: "mScriptValueUnwrap (refPool s ! i) = Some tgt"
      by auto
    from dr u have pt: "poolTargets (drop i (refPool s)) =
        (case tgt of None \<Rightarrow> [] | Some p \<Rightarrow> [p]) @ poolTargets (drop (Suc i) (refPool s))"
      by (simp add: poolTargets_Cons split: option.splits)
    have "\<exists>s1. (case tgt of None \<Rightarrow> Some s | Some p \<Rightarrow> mScriptValueDeref p s) = Some s1
         \<and> consistent s1
         \<and> (\<forall>q \<in> set (poolTargets (drop (Suc i) (refPool s))). callerOwns s1 q)"
    proof (cases tgt)
      case None
      with "1.prems"(1,4) pt show ?thesis by simp
    next
      case (Some p)
      with pt "1.prems"(4) have "callerOwns s p" by simp
      from consistent_Deref[OF "1.prems"(1) this] obtain s1 where
        s1: "mScriptValueDeref p s = Some s1" "consistent s1"
        "\<forall>q. q \<noteq> p \<and> callerOwns s q \<longrightarrow> callerOwns s1 q" by blast
      have "callerOwns s1 q" if q: "q \<in> set (poolTargets (drop (Suc i) (refPool s)))" for q
      proof -
        from q pt Some "1.prems"(3) have "q \<noteq> p" by auto
        moreover from q pt "1.prems"(4) have "callerOwns s q" by simp
        ultimately show ?thesis using s1(3) by blast
      qed
      with s1 Some show ?thesis by simp
    qed
    then obtain s1 where
      d: "(case tgt of None \<Rightarrow> Some s | Some p \<Rightarrow> mScriptValueDeref p s) = Some s1" and
      c1: "consistent s1" and
      o1: "\<forall>q \<in> set (poolTargets (drop (Suc i) (refPool s))). callerOwns s1 q" by blast
    have pool1: "refPool s1 = refPool s"
      using d by (auto split: option.splits simp: mScriptValueDeref_frame)
    have "\<exists>s'. drainFrom (i + 1) s1 = Some s' \<and> consistent s'"
    proof (rule "1.IH"[OF True u d c1])
      show "\<forall>e\<in>set (drop (i + 1) (refPool s1)). mScriptValueUnwrap e \<noteq> None"
        using "1.prems"(2) dr pool1 by simp
      show "distinct (poolTargets (drop (i + 1) (refPool s1)))"
        using "1.prems"(3) pt pool1 by simp
      show "\<forall>p\<in>set (poolTargets (drop (i + 1) (refPool s1))). callerOwns s1 p"
        using o1 pool1 by simp
    qed
    then obtain s' where "drainFrom (i + 1) s1 = Some s'" "consistent s'" by blast
    with True u d show ?thesis by (subst drainFrom.simps) simp
  qed
qed

lemma consistent_DrainPool:
  assumes "consistent s"
      and "\<forall>e \<in> set (refPool s). mScriptValueUnwrap e \<noteq> None"
      and "distinct (poolTargets (refPool s))"
      and "\<forall>p \<in> set (poolTargets (refPool s)). callerOwns s p"
  shows "\<exists>s'. mScriptContextDrainPool s = Some s' \<and> consistent s'"
proof -
  from consistent_drainFrom[of s 0] assms obtain s1 where
    "drainFrom 0 s = Some s1" "consistent s1" by auto
  then show ?thesis
    by (simp add: mScriptContextDrainPool_def consistent_refPool)
qed

section \<open>Loading: the first engine that claims the resource\<close>

lemma HashTableEnumerate_found:
  "info_context info \<noteq> None \<Longrightarrow> HashTableEnumerate es contextFindForFile info s = (info, s)"
  by (induction es arbitrary: s) (auto simp: contextFindForFile_def)

lemma HashTableEnumerate_contextFindForFile:
  "info_context info = None \<Longrightarrow>
   HashTableEnumerate es contextFindForFile info s =
     (case find (\<lambda>(k, e). isScript e (info_name info) (info_vf info)) es of
        None \<Rightarrow>
          (info, s\<lparr>trace := trace s @
             map (\<lambda>(k, e). EngineIsScript (self e) (info_name info) (info_vf info)) es\<rparr>)
      | Some (k, c) \<Rightarrow>
          (info\<lparr>info_context := Some c\<rparr>, s\<lparr>trace := trace s @
             map (\<lambda>(k, e). EngineIsScript (self e) (info_name info) (info_vf info))
               (takeWhile (\<lambda>(k, e). \<not> isScript e (info_name info) (info_vf info)) es)
             @ [EngineIsScript (self c) (info_name info) (info_vf info)]\<rparr>))"
proof (induction es arbitrary: s)
  case Nil
  then show ?case by simp
next
  case (Cons x es)
  obtain k e where x: "x = (k, e)" by (cases x)
  show ?case
  proof (cases "isScript e (info_name info) (info_vf info)")
    case True
    with Cons.prems have step: "contextFindForFile k e info s =
        (info\<lparr>info_context := Some e\<rparr>,
         s\<lparr>trace := trace s @ [EngineIsScript (self e) (info_name info) (info_vf info)]\<rparr>)"
      by (simp add: contextFindForFile_def emit_def)
    from True x show ?thesis
      by (simp add: step HashTableEnumerate_found)
  next
    case False
    with Cons.prems have step: "contextFindForFile k e info s =
        (info, s\<lparr>trace := trace s @ [EngineIsScript (self e) (info_name info) (info_vf info)]\<rparr>)"
      by (simp add: contextFindForFile_def emit_def)
    from False x Cons.IH[OF Cons.prems] show ?thesis
      by (simp add: step split: option.splits prod.splits)
  qed
qed

text \<open>
  C6. \<^verbatim>\<open>mScriptContextLoadVF\<close>: the engines are asked \<^verbatim>\<open>isScript(name, vf)\<close> in enumeration order,
  up to and including the first that answers true; no engine after it is asked. If none claims
  the resource the result is false and the trace holds no \<^verbatim>\<open>load\<close>. Otherwise \<^verbatim>\<open>load\<close> is
  called once, on the engine that claimed it, with \<open>vf\<close> and \<^verbatim>\<open>NULL\<close>, and the result is what it
  returned.
\<close>

theorem loadVF_first_match:
  "mScriptContextLoadVF nm vf s =
     (case find (\<lambda>(k, e). isScript e nm vf) (engines s) of
        None \<Rightarrow>
          (False, s\<lparr>trace := trace s @
             map (\<lambda>(k, e). EngineIsScript (self e) nm vf) (engines s)\<rparr>)
      | Some (k, c) \<Rightarrow>
          (load c vf None, s\<lparr>trace := trace s @
             map (\<lambda>(k, e). EngineIsScript (self e) nm vf)
               (takeWhile (\<lambda>(k, e). \<not> isScript e nm vf) (engines s))
             @ [EngineIsScript (self c) nm vf, EngineLoad (self c) vf None]\<rparr>))"
  by (simp add: mScriptContextLoadVF_def HashTableEnumerate_contextFindForFile emit_def
      split: option.splits prod.splits)

theorem loadVF_first_match_witness:
  "find (\<lambda>(k, e). isScript e ''s.lua'' 5) (engines exE) = Some (''b'', engineB)
   \<and> mScriptContextLoadVF ''s.lua'' 5 exE = (True, exL)
   \<and> trace exL = [EngineIsScript 10 ''s.lua'' 5, EngineIsScript 11 ''s.lua'' 5,
                   EngineLoad 11 5 None]"
proof -
  have f: "find (\<lambda>(k, e). isScript e ''s.lua'' 5) (engines exE) = Some (''b'', engineB)"
    by (simp add: engine_defs)
  from loadVF_first_match[of "''s.lua''" 5 exE] f
  have "mScriptContextLoadVF ''s.lua'' 5 exE = (True, exL)"
    by (simp add: engine_defs ex_defs exL_def)
  with f show ?thesis by (simp add: exL_def)
qed

section \<open>Registration\<close>

text \<open>
  C9. \<^verbatim>\<open>mScriptContextRegisterEngine\<close> calls the descriptor's \<^verbatim>\<open>create\<close> on the context. When it
  gives \<^verbatim>\<open>NULL\<close>, \<^verbatim>\<open>NULL\<close> is returned and nothing but the trace changes: the engines are as
  before. When it gives an engine context, that context is returned and the engines map holds
  it under the descriptor's name, every other name keeping its engine.
\<close>

theorem registerEngine_effect:
  "(create engine s = None \<longrightarrow>
      mScriptContextRegisterEngine engine s =
        (None, s\<lparr>trace := trace s @ [EngineCreate (name engine)]\<rparr>))
   \<and> (create engine s = Some e \<longrightarrow>
      (\<exists>s'. mScriptContextRegisterEngine engine s = (Some e, s')
        \<and> map_of (engines s') (name engine) = Some e
        \<and> (\<forall>k. k \<noteq> name engine \<longrightarrow> map_of (engines s') k = map_of (engines s) k)
        \<and> rootScope s' = rootScope s \<and> weakrefs s' = weakrefs s
        \<and> nextWeakref s' = nextWeakref s \<and> refPool s' = refPool s \<and> heap s' = heap s
        \<and> trace s' = trace s @ EngineCreate (name engine) #
             (case map_of (engines s) (name engine) of
                None \<Rightarrow> []
              | Some old \<Rightarrow> if self old = self e then [] else [EngineDestroy (self old)])))"
  by (auto simp: mScriptContextRegisterEngine_def HashTableInsert_engines_def emit_def
      engineContextDestroy_def Let_def update_conv' split: option.splits)

theorem registerEngine_effect_witness:
  "create badEngine exE = None
   \<and> mScriptContextRegisterEngine badEngine exE = (None, exE\<lparr>trace := [EngineCreate ''bad'']\<rparr>)
   \<and> create luaEngine exE = Some engineB
   \<and> mScriptContextRegisterEngine luaEngine exE =
       (Some engineB, exE\<lparr>engines := engines exE @ [(''lua'', engineB)],
                          trace := [EngineCreate ''lua'']\<rparr>)
   \<and> map_of (engines (snd (mScriptContextRegisterEngine luaEngine exE))) ''lua'' = Some engineB"
proof -
  have a: "create badEngine exE = None" by (simp add: badEngine_def)
  have b: "create luaEngine exE = Some engineB" by (simp add: luaEngine_def)
  have n: "name luaEngine = ''lua''" "name badEngine = ''bad''"
    by (simp_all add: luaEngine_def badEngine_def)
  have r: "mScriptContextRegisterEngine luaEngine exE =
       (Some engineB, exE\<lparr>engines := engines exE @ [(''lua'', engineB)],
                          trace := [EngineCreate ''lua'']\<rparr>)"
    by (simp add: mScriptContextRegisterEngine_def HashTableInsert_engines_def emit_def
        luaEngine_def engine_defs ex_defs)
  from registerEngine_effect[of badEngine exE] a n
  have c: "mScriptContextRegisterEngine badEngine exE = (None, exE\<lparr>trace := [EngineCreate ''bad'']\<rparr>)"
    by (simp add: engine_defs ex_defs)
  from registerEngine_effect[of luaEngine exE engineB] b n
  have d: "map_of (engines (snd (mScriptContextRegisterEngine luaEngine exE))) ''lua'' = Some engineB"
    by auto
  from a b c d r show ?thesis by simp
qed

section \<open>Invocation\<close>

text \<open>
  C7. \<^verbatim>\<open>mScriptInvoke\<close>: on a value that is not function typed the result is false, with no
  coercion and no call; when the coercion of the frame's arguments against the parameters of
  the function type fails, the result is false and the trace holds the coercion only; when it
  succeeds, the function's \<^verbatim>\<open>call\<close> is applied to the frame and the function's captured context,
  and its result is returned.
\<close>

theorem invoke_gate:
  "(base (type val) \<noteq> mSCRIPT_TYPE_FUNCTION \<longrightarrow>
      mScriptInvoke coerce fns val frame = Some (False, frame, []))
   \<and> (base (type val) = mSCRIPT_TYPE_FUNCTION
        \<and> \<not> fst (coerce (parameters (type val)) (arguments frame)) \<longrightarrow>
      mScriptInvoke coerce fns val frame =
        Some (False,
              frame\<lparr>arguments := snd (coerce (parameters (type val)) (arguments frame))\<rparr>,
              [CoerceFrame (parameters (type val)) (arguments frame)]))
   \<and> (base (type val) = mSCRIPT_TYPE_FUNCTION
        \<and> fst (coerce (parameters (type val)) (arguments frame))
        \<and> payload val = Opaque (Some a) \<and> fns a = Some fn
        \<and> frame1 = frame\<lparr>arguments := snd (coerce (parameters (type val)) (arguments frame))\<rparr> \<longrightarrow>
      mScriptInvoke coerce fns val frame =
        Some (fst (call fn frame1 (fn_context fn)),
              snd (call fn frame1 (fn_context fn)),
              [CoerceFrame (parameters (type val)) (arguments frame),
               FunctionCall a frame1 (fn_context fn)]))"
  by (simp add: mScriptInvoke_def Let_def)

theorem invoke_gate_witness:
  "mScriptInvoke arityCoerce [4 \<mapsto> nativeFn] (sintValue 1) \<lparr>arguments = [sintValue 2]\<rparr>
     = Some (False, \<lparr>arguments = [sintValue 2]\<rparr>, [])
   \<and> mScriptInvoke arityCoerce [4 \<mapsto> nativeFn] fnValue \<lparr>arguments = [sintValue 2]\<rparr>
     = Some (False, \<lparr>arguments = [sintValue 2]\<rparr>,
             [CoerceFrame [sintType, sintType] [sintValue 2]])
   \<and> mScriptInvoke arityCoerce [4 \<mapsto> nativeFn] fnValue \<lparr>arguments = [sintValue 2, sintValue 3]\<rparr>
     = Some (True, \<lparr>arguments = []\<rparr>,
             [CoerceFrame [sintType, sintType] [sintValue 2, sintValue 3],
              FunctionCall 4 \<lparr>arguments = [sintValue 2, sintValue 3]\<rparr> (Some 9)])"
proof -
  have a: "base (type (sintValue 1)) \<noteq> mSCRIPT_TYPE_FUNCTION"
    by (simp add: sintValue_def sintType_def)
  have b: "base (type fnValue) = mSCRIPT_TYPE_FUNCTION
        \<and> \<not> fst (arityCoerce (parameters (type fnValue)) (arguments \<lparr>arguments = [sintValue 2]\<rparr>))"
    by (simp add: fnValue_def arityCoerce_def)
  have c: "base (type fnValue) = mSCRIPT_TYPE_FUNCTION
        \<and> fst (arityCoerce (parameters (type fnValue))
                 (arguments \<lparr>arguments = [sintValue 2, sintValue 3]\<rparr>))
        \<and> payload fnValue = Opaque (Some 4) \<and> [4 \<mapsto> nativeFn] 4 = Some nativeFn
        \<and> \<lparr>arguments = [sintValue 2, sintValue 3]\<rparr> =
            \<lparr>arguments = [sintValue 2, sintValue 3]\<rparr>\<lparr>arguments :=
              snd (arityCoerce (parameters (type fnValue))
                 (arguments \<lparr>arguments = [sintValue 2, sintValue 3]\<rparr>))\<rparr>"
    by (simp add: fnValue_def arityCoerce_def)
  from invoke_gate[of "sintValue 1" arityCoerce "[4 \<mapsto> nativeFn]" "\<lparr>arguments = [sintValue 2]\<rparr>"] a
  have 1: "mScriptInvoke arityCoerce [4 \<mapsto> nativeFn] (sintValue 1) \<lparr>arguments = [sintValue 2]\<rparr>
     = Some (False, \<lparr>arguments = [sintValue 2]\<rparr>, [])"
    by blast
  from invoke_gate[of fnValue arityCoerce "[4 \<mapsto> nativeFn]" "\<lparr>arguments = [sintValue 2]\<rparr>"] b
  have 2: "mScriptInvoke arityCoerce [4 \<mapsto> nativeFn] fnValue \<lparr>arguments = [sintValue 2]\<rparr>
     = Some (False, \<lparr>arguments = [sintValue 2]\<rparr>,
             [CoerceFrame [sintType, sintType] [sintValue 2]])"
    by (simp add: fnValue_def arityCoerce_def)
  from invoke_gate[of fnValue arityCoerce "[4 \<mapsto> nativeFn]"
         "\<lparr>arguments = [sintValue 2, sintValue 3]\<rparr>" 4 nativeFn
         "\<lparr>arguments = [sintValue 2, sintValue 3]\<rparr>"] c
  have 3: "mScriptInvoke arityCoerce [4 \<mapsto> nativeFn] fnValue \<lparr>arguments = [sintValue 2, sintValue 3]\<rparr>
     = Some (True, \<lparr>arguments = []\<rparr>,
             [CoerceFrame [sintType, sintType] [sintValue 2, sintValue 3],
              FunctionCall 4 \<lparr>arguments = [sintValue 2, sintValue 3]\<rparr> (Some 9)])"
    by (simp add: fnValue_def arityCoerce_def nativeFn_def)
  from 1 2 3 show ?thesis by blast
qed

end
